theory Spec2Isabelle
  imports Complex_Main "HOL-Library.Multiset"
begin

section \<open>The binary heap of \<^verbatim>\<open>src/js/kdTree.js\<close> (lines 175-296)\<close>

text \<open>
  \<^verbatim>\<open>BinaryHeap\<close> keeps its entries in the array \<^verbatim>\<open>content\<close> and orders them by a
  caller-supplied \<^verbatim>\<open>scoreFunction\<close>. The array is a list, a JavaScript number is a
  \<^typ>\<open>real\<close> (no NaN, no rounding), and every method takes the array and returns the
  new one. \<^verbatim>\<open>remove\<close> (lines 206-226) is called nowhere in the file and is left out.
\<close>

text \<open>
  \<^verbatim>\<open>bubbleUp\<close> (lines 232-252): the \<^verbatim>\<open>while (n > 0)\<close> loop, with \<^verbatim>\<open>element\<close> fetched
  once before it. \<^verbatim>\<open>Math.floor((n + 1) / 2) - 1\<close> is \<open>(n + 1) div 2 - 1\<close>.
\<close>

function bubbleUp_loop :: "('a \<Rightarrow> real) \<Rightarrow> 'a \<Rightarrow> nat \<Rightarrow> 'a list \<Rightarrow> 'a list" where
  "bubbleUp_loop scoreFunction element n content =
     (if n > 0 then
        (let parentN = (n + 1) div 2 - 1;
             parent = content ! parentN
         in if scoreFunction element < scoreFunction parent
            then bubbleUp_loop scoreFunction element parentN
                   (content[parentN := element, n := parent])
            else content)
      else content)"
  by pat_completeness auto
termination
  by (relation "measure (\<lambda>(scoreFunction, element, n, content). n)") auto

declare bubbleUp_loop.simps [simp del]

definition bubbleUp :: "('a \<Rightarrow> real) \<Rightarrow> nat \<Rightarrow> 'a list \<Rightarrow> 'a list" where
  "bubbleUp scoreFunction n content = bubbleUp_loop scoreFunction (content ! n) n content"

text \<open>
  \<^verbatim>\<open>sinkDown\<close> (lines 254-295). One round of the \<^verbatim>\<open>while (true)\<close> loop computes
  \<^verbatim>\<open>swap\<close> (lines 262-282): \<open>None\<close> is JavaScript's \<^verbatim>\<open>null\<close>. \<^verbatim>\<open>child1Score\<close> is read
  in the second test only when \<^verbatim>\<open>swap\<close> was set by the first one, so it is the score
  of the first child of this round.
\<close>

definition sinkDown_swap :: "('a \<Rightarrow> real) \<Rightarrow> real \<Rightarrow> nat \<Rightarrow> 'a list \<Rightarrow> nat option" where
  "sinkDown_swap scoreFunction elemScore n content =
     (let child2N = (n + 1) * 2;
          child1N = child2N - 1;
          swap = (if child1N < length content
                     \<and> scoreFunction (content ! child1N) < elemScore
                  then Some child1N else None)
      in if child2N < length content
            \<and> scoreFunction (content ! child2N)
                < (case swap of None \<Rightarrow> elemScore
                   | Some _ \<Rightarrow> scoreFunction (content ! child1N))
         then Some child2N else swap)"

lemma sinkDown_swap_bounds:
  "sinkDown_swap scoreFunction elemScore n content = Some s \<Longrightarrow> n < s \<and> s < length content"
  by (auto simp: sinkDown_swap_def Let_def split: if_splits)

function sinkDown_loop :: "('a \<Rightarrow> real) \<Rightarrow> 'a \<Rightarrow> nat \<Rightarrow> 'a list \<Rightarrow> 'a list" where
  "sinkDown_loop scoreFunction element n content =
     (case sinkDown_swap scoreFunction (scoreFunction element) n content of
        Some swap \<Rightarrow>
          sinkDown_loop scoreFunction element swap (content[n := content ! swap, swap := element])
      | None \<Rightarrow> content)"
  by pat_completeness auto
termination
  by (relation "measure (\<lambda>(scoreFunction, element, n, content). length content - n)")
     (auto dest: sinkDown_swap_bounds)

declare sinkDown_loop.simps [simp del]

definition sinkDown :: "('a \<Rightarrow> real) \<Rightarrow> nat \<Rightarrow> 'a list \<Rightarrow> 'a list" where
  "sinkDown scoreFunction n content = sinkDown_loop scoreFunction (content ! n) n content"

text \<open>\<^verbatim>\<open>push\<close> (lines 181-186): append, then bubble up from the last position.\<close>

definition push :: "('a \<Rightarrow> real) \<Rightarrow> 'a \<Rightarrow> 'a list \<Rightarrow> 'a list" where
  "push scoreFunction element content =
     (let content1 = content @ [element]
      in bubbleUp scoreFunction (length content1 - 1) content1)"

text \<open>
  \<^verbatim>\<open>pop\<close> (lines 188-200) returns the first entry and the new array. On an empty
  array JavaScript's \<^verbatim>\<open>content[0]\<close> and \<^verbatim>\<open>content.pop()\<close> are \<^verbatim>\<open>undefined\<close> and
  nothing changes: the result is \<open>None\<close>.
\<close>

definition pop :: "('a \<Rightarrow> real) \<Rightarrow> 'a list \<Rightarrow> 'a option \<times> 'a list" where
  "pop scoreFunction content =
     (if content = [] then (None, [])
      else
        (let result = content ! 0;
             end' = last content;
             content1 = butlast content
         in if length content1 > 0
            then (Some result, sinkDown scoreFunction 0 (content1[0 := end']))
            else (Some result, content1)))"

text \<open>\<^verbatim>\<open>peek\<close> (lines 202-204): \<^verbatim>\<open>content[0]\<close>, \<^verbatim>\<open>undefined\<close> on an empty array.\<close>

definition peek :: "'a list \<Rightarrow> 'a option" where
  "peek content = (if content = [] then None else Some (content ! 0))"

text \<open>\<^verbatim>\<open>size\<close> (lines 228-230).\<close>

definition size_heap :: "'a list \<Rightarrow> nat" where
  "size_heap content = length content"

text \<open>
  The heap property of the specification: every entry's score is at most the scores
  of its children, the children of position \<open>n\<close> being \<open>2n+1\<close> and \<open>2n+2\<close>.
\<close>

definition heap_property :: "('a \<Rightarrow> real) \<Rightarrow> 'a list \<Rightarrow> bool" where
  "heap_property scoreFunction content =
     (\<forall>n < length content.
        (2 * n + 1 < length content
           \<longrightarrow> scoreFunction (content ! n) \<le> scoreFunction (content ! (2 * n + 1))) \<and>
        (2 * n + 2 < length content
           \<longrightarrow> scoreFunction (content ! n) \<le> scoreFunction (content ! (2 * n + 2))))"

text \<open>A sequence of heap operations, run from left to right.\<close>

datatype 'a heap_op = Push 'a | Pop

fun run_op :: "('a \<Rightarrow> real) \<Rightarrow> 'a heap_op \<Rightarrow> 'a list \<Rightarrow> 'a list" where
  "run_op scoreFunction (Push element) content = push scoreFunction element content"
| "run_op scoreFunction Pop content = snd (pop scoreFunction content)"

fun run_ops :: "('a \<Rightarrow> real) \<Rightarrow> 'a heap_op list \<Rightarrow> 'a list \<Rightarrow> 'a list" where
  "run_ops scoreFunction [] content = content"
| "run_ops scoreFunction (operation # rest) content =
     run_ops scoreFunction rest (run_op scoreFunction operation content)"


section \<open>The k-d tree of \<^verbatim>\<open>src/js/kdTree.js\<close> (lines 27-170)\<close>

text \<open>
  The point buffer is a flat typed array \<^verbatim>\<open>[x, y, z, x, y, z, ...]\<close>: a list of reals.
  A point is the slice of \<^verbatim>\<open>eleSize\<close> coordinates that \<^verbatim>\<open>getPointSet\<close> cuts out.
\<close>

type_synonym point = "real list"

text \<open>
  \<^verbatim>\<open>TypedArray.subarray(begin, end)\<close>: both bounds are clamped to the length of the
  array, and the view is empty when \<^verbatim>\<open>end\<close> is not after \<^verbatim>\<open>begin\<close>; \<open>take\<close> and
  \<open>drop\<close> clamp the same way.
\<close>

definition subarray :: "nat \<Rightarrow> nat \<Rightarrow> 'a list \<Rightarrow> 'a list" where
  "subarray begin end' xs = take (end' - begin) (drop begin xs)"

text \<open>\<^verbatim>\<open>getPointSet\<close> (lines 43-45).\<close>

definition getPointSet :: "nat \<Rightarrow> real list \<Rightarrow> nat \<Rightarrow> point" where
  "getPointSet eleSize points pos = subarray (pos * eleSize) (pos * eleSize + eleSize) points"

text \<open>
  \<^verbatim>\<open>Node\<close> (lines 27-34). \<open>Null\<close> is JavaScript's \<^verbatim>\<open>null\<close>. The field \<^verbatim>\<open>parent\<close> is a
  back-reference that no code of the file reads; it is left out. \<^verbatim>\<open>obj\<close> is a view
  into the buffer; the model stores the coordinates the view shows when the node is
  made; the build never writes to that part of the buffer afterwards (see the
  claims about the build), so they are the coordinates that the view shows at the end.
\<close>

datatype kdnode =
    Null
  | Node (obj: point) (left: kdnode) (right: kdnode) (depth: nat) (pos: nat)

text \<open>The two counters that \<^verbatim>\<open>buildTree\<close> updates (lines 40-41).\<close>

record build_stats =
  maxDepth :: nat
  amountOfLeafDepthNodes :: nat

text \<open>
  \<^verbatim>\<open>quickSortIP(points, eleSize, dim)\<close> (line 61) is not part of the file ("Requires typed
  array quicksort"): it is a parameter of the model, a function from the window to the
  window it leaves behind.
\<close>

type_synonym sorter = "real list \<Rightarrow> nat \<Rightarrow> nat \<Rightarrow> real list"

text \<open>
  \<^verbatim>\<open>buildTree\<close> (lines 47-70). The window \<^verbatim>\<open>points\<close> is a view into the buffer, sorted
  in place; the model returns the node, the window as the build leaves it, and the
  counters.

  \<^verbatim>\<open>plength = points.length / eleSize\<close> is a JavaScript division, not rounded:
  \<^verbatim>\<open>plength === 0\<close> holds when the window is empty, \<^verbatim>\<open>plength === 1\<close> when its length
  is \<^verbatim>\<open>eleSize\<close>, and \<^verbatim>\<open>Math.floor(plength / 2)\<close> is \<open>length points div eleSize div 2\<close>.
  A typed array keeps its length, so \<^verbatim>\<open>points.length\<close> after the sort (line 67) is the
  length of the window before it.

  With \<^verbatim>\<open>eleSize = 0\<close> the source never returns (\<^verbatim>\<open>plength\<close> is \<^verbatim>\<open>NaN\<close> or \<^verbatim>\<open>Infinity\<close>,
  so neither test stops the recursion); the model stops there, and \<open>kdTree\<close> below
  reports the stack overflow.
\<close>

lemma median_window_less:
  assumes "0 < eleSize" and "0 < (n::nat)"
  shows "n div eleSize div 2 * eleSize < n"
proof (cases "n div eleSize = 0")
  case True
  with assms show ?thesis by simp
next
  case False
  then have "n div eleSize div 2 < n div eleSize" by simp
  then have "n div eleSize div 2 * eleSize < n div eleSize * eleSize"
    using assms(1) by simp
  also have "\<dots> \<le> n" by simp
  finally show ?thesis .
qed

function buildTree ::
  "sorter \<Rightarrow> nat \<Rightarrow> real list \<Rightarrow> nat \<Rightarrow> nat \<Rightarrow> build_stats
     \<Rightarrow> kdnode \<times> real list \<times> build_stats" where
  "buildTree quickSortIP eleSize points depth' pos' stats =
     (let dim = depth' mod eleSize;
          stats1 = (if depth' > maxDepth stats then stats\<lparr>maxDepth := depth'\<rparr> else stats)
      in if eleSize = 0 \<or> length points = 0 then (Null, points, stats1)
         else if length points = eleSize
         then (Node (getPointSet eleSize points 0) Null Null depth' pos', points,
               stats1\<lparr>amountOfLeafDepthNodes := amountOfLeafDepthNodes stats1 + 1\<rparr>)
         else
           (let sorted = quickSortIP points eleSize dim;
                median = length points div eleSize div 2;
                (left', leftPoints, stats2) =
                   buildTree quickSortIP eleSize
                     (subarray 0 (median * eleSize) sorted) (depth' + 1) pos' stats1;
                (right', rightPoints, stats3) =
                   buildTree quickSortIP eleSize
                     (subarray ((median + 1) * eleSize) (length points) sorted)
                     (depth' + 1) (pos' + median + 1) stats2
            in (Node (getPointSet eleSize sorted median) left' right' depth' (median + pos'),
                leftPoints @ getPointSet eleSize sorted median @ rightPoints,
                stats3)))"
  by pat_completeness auto

termination
proof (relation "measure (\<lambda>(quickSortIP, eleSize, points, depth', pos', stats). length points)",
    goal_cases)
  case 1
  show ?case by simp
next
  case (2 quickSortIP eleSize points depth' pos' stats)
  then show ?case
    using median_window_less[of eleSize "length points"]
    by (simp add: subarray_def)
next
  case (3 quickSortIP eleSize points depth' pos' stats)
  then have "length points - (median + 1) * eleSize < length points" for median
    by simp
  then show ?case
    by (simp add: subarray_def min.strict_coboundedI2)
qed

declare buildTree.simps [simp del]

text \<open>The errors a call can end with.\<close>

datatype error =
    TypeError    \<comment> \<open>reading a property of \<^verbatim>\<open>null\<close> or \<^verbatim>\<open>undefined\<close>\<close>
  | RangeError   \<comment> \<open>the call stack is exhausted\<close>
  | InvalidInput \<comment> \<open>the specification's error for rejected input; no line of the file raises it\<close>

text \<open>
  The object that \<^verbatim>\<open>new kdTree(points, metric, eleSize)\<close> makes (lines 36-75):
  \<^verbatim>\<open>root\<close>, the closure variables \<^verbatim>\<open>metric\<close> and \<^verbatim>\<open>eleSize\<close> that \<^verbatim>\<open>nearest\<close> reads, the
  counters, and the caller's buffer as the build leaves it.
\<close>

record kdTree_obj =
  root :: kdnode
  metric :: "point \<Rightarrow> point \<Rightarrow> real"
  eleSize :: nat
  stats :: build_stats
  buffer :: "real list"

definition kdTree ::
  "sorter \<Rightarrow> real list \<Rightarrow> (point \<Rightarrow> point \<Rightarrow> real) \<Rightarrow> nat \<Rightarrow> error + kdTree_obj" where
  "kdTree quickSortIP points metric' eleSize' =
     (if eleSize' = 0 then Inl RangeError
      else
        (let (root', points', stats') =
               buildTree quickSortIP eleSize' points 0 0
                 \<lparr>maxDepth = 0, amountOfLeafDepthNodes = 0\<rparr>
         in Inr \<lparr>root = root', metric = metric', eleSize = eleSize', stats = stats',
                 buffer = points'\<rparr>))"


subsection \<open>\<^verbatim>\<open>nearest\<close> (lines 77-168)\<close>

text \<open>
  An entry of \<^verbatim>\<open>bestNodes\<close> is the two-element array \<^verbatim>\<open>[node, distance]\<close>; the heap is
  made with the score function \<^verbatim>\<open>function (e) { return -e[1]; }\<close> (lines 82-84), so its
  first entry is one of largest distance.
\<close>

type_synonym entry = "kdnode \<times> real"

definition score :: "entry \<Rightarrow> real" where
  "score e = - snd e"

text \<open>
  The test \<^verbatim>\<open>bestNodes.size() < maxNodes || d < bestNodes.peek()[1]\<close> of lines 114, 135
  and 140. \<^verbatim>\<open>||\<close> reads its right operand only when the left one is false; there
  \<^verbatim>\<open>peek()\<close> of an empty heap is \<^verbatim>\<open>undefined\<close>, and \<^verbatim>\<open>undefined[1]\<close> throws a TypeError.
  \<^verbatim>\<open>maxNodes\<close> is whatever number the caller passes: an \<^typ>\<open>int\<close>.
\<close>

definition room_or_nearer :: "int \<Rightarrow> real \<Rightarrow> entry list \<Rightarrow> error + bool" where
  "room_or_nearer maxNodes d bestNodes =
     (if int (size_heap bestNodes) < maxNodes then Inr True
      else (case peek bestNodes of
              None \<Rightarrow> Inl TypeError
            | Some e \<Rightarrow> Inr (d < snd e)))"

text \<open>\<^verbatim>\<open>saveNode\<close> (lines 95-100).\<close>

definition saveNode :: "int \<Rightarrow> kdnode \<Rightarrow> real \<Rightarrow> entry list \<Rightarrow> entry list" where
  "saveNode maxNodes node distance bestNodes =
     (let bestNodes1 = push score (node, distance) bestNodes
      in if int (size_heap bestNodes1) > maxNodes
         then snd (pop score bestNodes1)
         else bestNodes1)"

text \<open>
  The statement \<^verbatim>\<open>if (size() < maxNodes || ownDistance < peek()[1]) saveNode(node, ownDistance)\<close>
  of lines 114-116 and 135-137.
\<close>

definition saveIfBetter :: "int \<Rightarrow> kdnode \<Rightarrow> real \<Rightarrow> entry list \<Rightarrow> error + entry list" where
  "saveIfBetter maxNodes node ownDistance bestNodes =
     (case room_or_nearer maxNodes ownDistance bestNodes of
        Inl e \<Rightarrow> Inl e
      | Inr b \<Rightarrow> Inr (if b then saveNode maxNodes node ownDistance bestNodes else bestNodes))"

text \<open>
  \<^verbatim>\<open>linearPoint\<close> (lines 102-108): the node's point with the query's coordinate on the
  node's axis. The model reads coordinates with \<open>!\<close>: it follows the source for query
  points and node points of at least \<^verbatim>\<open>eleSize\<close> coordinates (a shorter one gives
  \<^verbatim>\<open>undefined\<close> in JavaScript), which the theorems below that compare coordinates assume.
\<close>

definition linearPoint :: "nat \<Rightarrow> point \<Rightarrow> point \<Rightarrow> nat \<Rightarrow> point" where
  "linearPoint eleSize' point obj' depth' =
     map (\<lambda>i. if i = depth' mod eleSize' then point ! i else obj' ! i) [0..<eleSize']"

text \<open>
  \<^verbatim>\<open>nearestSearch\<close> (lines 86-150), with \<^verbatim>\<open>bestNodes\<close> passed through. The first
  equation is the call on \<^verbatim>\<open>null\<close>: \<^verbatim>\<open>node.depth\<close> throws a TypeError (line 88).
  \<^verbatim>\<open>bestChild === node.left\<close> (line 141) compares references; \<open>bestIsLeft\<close> records
  which child lines 120-130 chose (when \<^verbatim>\<open>left\<close> is \<^verbatim>\<open>null\<close> and \<^verbatim>\<open>right\<close> was chosen, the
  comparison is false and \<^verbatim>\<open>otherChild\<close> is \<^verbatim>\<open>left\<close>).
\<close>

fun nearestSearch ::
  "(point \<Rightarrow> point \<Rightarrow> real) \<Rightarrow> nat \<Rightarrow> point \<Rightarrow> int \<Rightarrow> kdnode \<Rightarrow> entry list
     \<Rightarrow> error + entry list" where
  "nearestSearch metric' eleSize' point maxNodes Null bestNodes = Inl TypeError"
| "nearestSearch metric' eleSize' point maxNodes (Node obj' left' right' depth' pos') bestNodes =
     (let node = Node obj' left' right' depth' pos';
          dimension = depth' mod eleSize';
          ownDistance = metric' point obj';
          linearDistance = metric' (linearPoint eleSize' point obj' depth') obj'
      in if right' = Null \<and> left' = Null
         then saveIfBetter maxNodes node ownDistance bestNodes
         else
           (let bestIsLeft =
                  (if right' = Null then True
                   else if left' = Null then False
                   else point ! dimension < obj' ! dimension);
                bestChild = (if bestIsLeft then left' else right')
            in case nearestSearch metric' eleSize' point maxNodes bestChild bestNodes of
                 Inl e \<Rightarrow> Inl e
               | Inr bestNodes1 \<Rightarrow>
                  (case saveIfBetter maxNodes node ownDistance bestNodes1 of
                     Inl e \<Rightarrow> Inl e
                   | Inr bestNodes2 \<Rightarrow>
                      (case room_or_nearer maxNodes \<bar>linearDistance\<bar> bestNodes2 of
                         Inl e \<Rightarrow> Inl e
                       | Inr explore \<Rightarrow>
                           if explore
                           then (let otherChild = (if bestIsLeft then right' else left')
                                 in if otherChild \<noteq> Null
                                    then nearestSearch metric' eleSize' point maxNodes
                                           otherChild bestNodes2
                                    else Inr bestNodes2)
                           else Inr bestNodes2))))"

text \<open>
  The loop of lines 153-155, run when \<^verbatim>\<open>maxDistance\<close> is truthy: \<^verbatim>\<open>maxNodes\<close> entries
  \<^verbatim>\<open>[null, maxDistance]\<close>.
\<close>

function seed :: "int \<Rightarrow> real \<Rightarrow> nat \<Rightarrow> entry list \<Rightarrow> entry list" where
  "seed maxNodes maxDistance i bestNodes =
     (if int i < maxNodes
      then seed maxNodes maxDistance (i + 1) (push score (Null, maxDistance) bestNodes)
      else bestNodes)"
  by pat_completeness auto
termination
  by (relation "measure (\<lambda>(maxNodes, maxDistance, i, bestNodes). nat (maxNodes - int i))") auto

declare seed.simps [simp del]

text \<open>
  The loop of lines 162-166. \<^verbatim>\<open>bestNodes.content[i]\<close> is \<^verbatim>\<open>undefined\<close> past the end of
  the array, and \<^verbatim>\<open>undefined[0]\<close> throws a TypeError; an entry is kept when its node is
  truthy, that is, not \<^verbatim>\<open>null\<close>.
\<close>

function collect :: "int \<Rightarrow> entry list \<Rightarrow> nat \<Rightarrow> entry list \<Rightarrow> error + entry list" where
  "collect maxNodes content i result =
     (if int i < maxNodes
      then (if i < length content
            then collect maxNodes content (i + 1)
                   (if fst (content ! i) \<noteq> Null
                    then result @ [(fst (content ! i), snd (content ! i))]
                    else result)
            else Inl TypeError)
      else Inr result)"
  by pat_completeness auto
termination
  by (relation "measure (\<lambda>(maxNodes, content, i, result). nat (maxNodes - int i))") auto

declare collect.simps [simp del]

text \<open>
  \<^verbatim>\<open>nearest\<close> (lines 77-168). \<^verbatim>\<open>maxDistance\<close> is \<open>None\<close> when the caller leaves it out;
  \<^verbatim>\<open>if (maxDistance)\<close> (line 152) is false for \<^verbatim>\<open>undefined\<close> and for \<^verbatim>\<open>0\<close>.
\<close>

definition nearest ::
  "kdTree_obj \<Rightarrow> point \<Rightarrow> int \<Rightarrow> real option \<Rightarrow> error + entry list" where
  "nearest self point maxNodes maxDistance =
     (let bestNodes = [];
          bestNodes1 =
            (case maxDistance of
               None \<Rightarrow> bestNodes
             | Some d \<Rightarrow> if d \<noteq> 0 then seed maxNodes d 0 bestNodes else bestNodes)
      in case nearestSearch (metric self) (eleSize self) point maxNodes (root self) bestNodes1 of
           Inl e \<Rightarrow> Inl e
         | Inr bestNodes2 \<Rightarrow> collect maxNodes bestNodes2 0 [])"


section \<open>Notions used to state and prove the properties\<close>

subsection \<open>Heap invariants\<close>

text \<open>
  The heap property read from the child to its parent \<open>(i + 1) div 2 - 1\<close>, as
  \<^verbatim>\<open>bubbleUp\<close> computes it.
\<close>

definition heap_parent :: "('a \<Rightarrow> real) \<Rightarrow> 'a list \<Rightarrow> bool" where
  "heap_parent scoreFunction content =
     (\<forall>i < length content. 0 < i \<longrightarrow>
        scoreFunction (content ! ((i + 1) div 2 - 1)) \<le> scoreFunction (content ! i))"

text \<open>
  The loop invariants: while \<^verbatim>\<open>bubbleUp\<close> runs, only the entry at \<open>n\<close> may score below
  its parent, and the children of \<open>n\<close> score at least as much as the parent of \<open>n\<close>;
  while \<^verbatim>\<open>sinkDown\<close> runs, only the children of \<open>n\<close> may score below their parent,
  and they score at least as much as the parent of \<open>n\<close>.
\<close>

definition up_inv :: "('a \<Rightarrow> real) \<Rightarrow> 'a list \<Rightarrow> nat \<Rightarrow> bool" where
  "up_inv sc c n =
     (n < length c \<and>
      (\<forall>i < length c. 0 < i \<longrightarrow> i \<noteq> n \<longrightarrow> sc (c ! ((i + 1) div 2 - 1)) \<le> sc (c ! i)) \<and>
      (\<forall>i < length c. 0 < i \<longrightarrow> (i + 1) div 2 - 1 = n \<longrightarrow> 0 < n \<longrightarrow>
           sc (c ! ((n + 1) div 2 - 1)) \<le> sc (c ! i)))"

definition down_inv :: "('a \<Rightarrow> real) \<Rightarrow> 'a list \<Rightarrow> nat \<Rightarrow> bool" where
  "down_inv sc c n =
     ((\<forall>i < length c. 0 < i \<longrightarrow> (i + 1) div 2 - 1 \<noteq> n \<longrightarrow>
           sc (c ! ((i + 1) div 2 - 1)) \<le> sc (c ! i)) \<and>
      (\<forall>i < length c. 0 < i \<longrightarrow> (i + 1) div 2 - 1 = n \<longrightarrow> 0 < n \<longrightarrow>
           sc (c ! ((n + 1) div 2 - 1)) \<le> sc (c ! i)))"

subsection \<open>Points, nodes and the tree invariants\<close>

text \<open>The points of a buffer, in the order of the buffer: its slices of \<open>e\<close> coordinates.\<close>

definition pointsOf :: "nat \<Rightarrow> real list \<Rightarrow> point list" where
  "pointsOf e points = map (getPointSet e points) [0..<length points div e]"

text \<open>All nodes of a subtree.\<close>

fun nodes :: "kdnode \<Rightarrow> kdnode list" where
  "nodes Null = []"
| "nodes (Node obj' left' right' depth' pos') =
     Node obj' left' right' depth' pos' # nodes left' @ nodes right'"

text \<open>
  What the claims ask of \<^verbatim>\<open>quickSortIP\<close> ("a correct total-order sort along the partition
  axis"): on a window of whole points it leaves a window of the same points, in
  ascending order of the coordinate \<open>axis\<close>. Nothing is asked about the order of ties.
\<close>

definition sorts_points :: "nat \<Rightarrow> sorter \<Rightarrow> bool" where
  "sorts_points e quickSortIP =
     (\<forall>ps axis. (\<forall>p \<in> set ps. length p = e) \<longrightarrow> axis < e \<longrightarrow>
        (\<exists>qs. quickSortIP (concat ps) e axis = concat qs \<and> mset qs = mset ps \<and>
              sorted (map (\<lambda>p. p ! axis) qs)))"

text \<open>
  The partition invariant for a subtree whose root is at depth \<open>d\<close>: every node stores
  its depth, no point on its left is above it on the axis \<open>depth mod e\<close>, and no point on
  its right is below it.
\<close>

fun partition_inv :: "nat \<Rightarrow> nat \<Rightarrow> kdnode \<Rightarrow> bool" where
  "partition_inv e d Null = True"
| "partition_inv e d (Node obj' left' right' depth' pos') =
     (depth' = d \<and>
      (\<forall>n \<in> set (nodes left'). obj n ! (depth' mod e) \<le> obj' ! (depth' mod e)) \<and>
      (\<forall>n \<in> set (nodes right'). obj' ! (depth' mod e) \<le> obj n ! (depth' mod e)) \<and>
      partition_inv e (d + 1) left' \<and> partition_inv e (d + 1) right')"

text \<open>
  What \<^verbatim>\<open>buildTree\<close> achieves on a window holding the points \<open>ps\<close> that starts at point
  \<open>p0\<close> of the buffer, when it returns the subtree \<open>t\<close> and leaves the points \<open>ps'\<close> in
  the window.
\<close>

definition built :: "nat \<Rightarrow> nat \<Rightarrow> nat \<Rightarrow> point list \<Rightarrow> kdnode \<Rightarrow> point list \<Rightarrow> bool" where
  "built e d p0 ps t ps' =
     (mset ps' = mset ps \<and>
      mset (map obj (nodes t)) = mset ps \<and>
      (\<forall>n \<in> set (nodes t).
          p0 \<le> pos n \<and> pos n < p0 + length ps \<and> ps' ! (pos n - p0) = obj n) \<and>
      partition_inv e d t)"

text \<open>The heap entries that the nodes of a subtree can contribute for the query \<open>q\<close>.\<close>

definition entries :: "(point \<Rightarrow> point \<Rightarrow> real) \<Rightarrow> point \<Rightarrow> kdnode \<Rightarrow> entry list" where
  "entries mt q t = map (\<lambda>n. (n, mt q (obj n))) (nodes t)"

subsection \<open>A sorter and a metric for concrete inputs\<close>

text \<open>
  Modelled from the spec: \<^verbatim>\<open>quickSortIP\<close>, which is not in the file. "Reorder the window in
  place by ascending coordinate value along \<open>axis\<close>": the points of the window are
  sorted by that coordinate, and coordinates after the last whole point stay where
  they are. It is used for concrete inputs only; the theorems hold for every sorter
  with \<open>sorts_points\<close>.
\<close>

definition quickSortIP_spec :: sorter where
  "quickSortIP_spec points e axis =
     concat (sort_key (\<lambda>p. p ! axis) (pointsOf e points)) @ drop (length points div e * e) points"

text \<open>
  The metric of the file's header comment (line 17, there written out for three
  coordinates): the squared Euclidean distance.
\<close>

definition squaredEuclidean :: "point \<Rightarrow> point \<Rightarrow> real" where
  "squaredEuclidean a b = (\<Sum>(x, y) \<leftarrow> zip a b. (x - y)\<^sup>2)"


subsection \<open>The k nearest\<close>

text \<open>
  The brute-force linear scan of the specification: the \<open>k\<close> smallest values of
  \<open>metric(q, p)\<close> over all points \<open>p\<close>, in ascending order.
\<close>

definition bruteForce :: "(point \<Rightarrow> point \<Rightarrow> real) \<Rightarrow> point \<Rightarrow> nat \<Rightarrow> point list \<Rightarrow> real list" where
  "bruteForce mt q k ps = take k (sort (map (mt q) ps))"

text \<open>
  The two properties the specification asks of the metric. It is non-negative; and
  it is monotonic per axis in the form the pruning of line 140 uses: the metric between
  a node's point and that point moved onto the query's coordinate on one axis (the
  \<^verbatim>\<open>linearDistance\<close> of lines 102-110) is at most the metric between the query and any
  point that lies on the other side of the node on that axis.
\<close>

definition nonnegative :: "(point \<Rightarrow> point \<Rightarrow> real) \<Rightarrow> bool" where
  "nonnegative mt = (\<forall>a b. 0 \<le> mt a b)"

definition axis_monotone :: "nat \<Rightarrow> (point \<Rightarrow> point \<Rightarrow> real) \<Rightarrow> bool" where
  "axis_monotone e mt =
     (\<forall>q ob p a. a < e \<longrightarrow> length q = e \<longrightarrow> length ob = e \<longrightarrow> length p = e \<longrightarrow>
        (q ! a \<le> ob ! a \<and> ob ! a \<le> p ! a \<or> p ! a \<le> ob ! a \<and> ob ! a \<le> q ! a) \<longrightarrow>
        mt (ob[a := q ! a]) ob \<le> mt q p)"

text \<open>
  The invariant of \<^verbatim>\<open>bestNodes\<close> during a query without \<^verbatim>\<open>maxDistance\<close>: the heap is
  ordered, holds at most \<open>k\<close> entries, no kept entry is farther than an entry \<open>rej\<close>
  that was seen and not kept, and nothing is dropped while there is room.
\<close>

definition best :: "int \<Rightarrow> entry list \<Rightarrow> entry multiset \<Rightarrow> bool" where
  "best k h rej =
     (heap_property score h \<and> int (length h) \<le> k \<and>
      (\<forall>x \<in> set h. \<forall>y \<in># rej. snd x \<le> snd y) \<and>
      (int (length h) < k \<longrightarrow> rej = {#}))"

section \<open>The heap: proofs\<close>


lemma heap_property_parent: "heap_property sc c = heap_parent sc c"
proof
  assume h: "heap_property sc c"
  show "heap_parent sc c"
    unfolding heap_parent_def
  proof (intro allI impI)
    fix i assume i: "i < length c" "0 < i"
    define n where "n = (i + 1) div 2 - 1"
    have cases: "i = 2 * n + 1 \<or> i = 2 * n + 2" using i by (auto simp: n_def)
    have "n < length c" using i by (auto simp: n_def)
    with h cases i show "sc (c ! ((i + 1) div 2 - 1)) \<le> sc (c ! i)"
      unfolding heap_property_def n_def[symmetric] by auto
  qed
next
  assume h: "heap_parent sc c"
  show "heap_property sc c"
    unfolding heap_property_def
  proof (intro allI impI conjI)
    fix n assume "n < length c" "2 * n + 1 < length c"
    with h[unfolded heap_parent_def, rule_format, of "2 * n + 1"]
    show "sc (c ! n) \<le> sc (c ! (2 * n + 1))" by simp
  next
    fix n assume "n < length c" "2 * n + 2 < length c"
    with h[unfolded heap_parent_def, rule_format, of "2 * n + 2"]
    show "sc (c ! n) \<le> sc (c ! (2 * n + 2))" by simp
  qed
qed

lemma up_inv_step:
  assumes inv: "up_inv sc c n" and n: "0 < n"
    and less: "sc (c ! n) < sc (c ! ((n + 1) div 2 - 1))"
  shows "up_inv sc (c[(n + 1) div 2 - 1 := c ! n, n := c ! ((n + 1) div 2 - 1)]) ((n + 1) div 2 - 1)"
proof -
  define p where "p = (n + 1) div 2 - 1"
  have pn: "p < n" using n by (auto simp: p_def)
  have nl: "n < length c" using inv by (simp add: up_inv_def)
  let ?c = "c[p := c ! n, n := c ! p]"
  have A: "\<And>i. i < length c \<Longrightarrow> 0 < i \<Longrightarrow> i \<noteq> n \<Longrightarrow> sc (c ! ((i + 1) div 2 - 1)) \<le> sc (c ! i)"
    using inv by (simp add: up_inv_def)
  have B: "\<And>i. i < length c \<Longrightarrow> 0 < i \<Longrightarrow> (i + 1) div 2 - 1 = n \<Longrightarrow>
           sc (c ! p) \<le> sc (c ! i)"
    using inv n by (simp add: up_inv_def p_def)
  have less': "sc (c ! n) < sc (c ! p)" using less by (simp add: p_def)
  have 1: "sc (?c ! ((i + 1) div 2 - 1)) \<le> sc (?c ! i)"
    if i: "i < length c" "0 < i" "i \<noteq> p" for i
  proof -
    define q where "q = (i + 1) div 2 - 1"
    have qi: "q < i" using i by (auto simp: q_def)
    consider "i = n" | "i \<noteq> n" "q = n" | "i \<noteq> n" "q = p" | "i \<noteq> n" "q \<noteq> n" "q \<noteq> p"
      by blast
    then have "sc (?c ! q) \<le> sc (?c ! i)"
    proof cases
      case 1
      then have "q = p" by (simp add: q_def p_def)
      with 1 less' pn nl show ?thesis by simp
    next
      case 2
      with B[of i] i pn nl qi show ?thesis by (simp add: q_def)
    next
      case 3
      with A[of i] i pn nl qi less' show ?thesis by (simp add: q_def)
    next
      case 4
      with A[of i] i pn nl qi show ?thesis by (simp add: q_def)
    qed
    then show ?thesis by (simp add: q_def)
  qed
  have 2: "sc (?c ! ((p + 1) div 2 - 1)) \<le> sc (?c ! i)"
    if i: "i < length c" "0 < i" "(i + 1) div 2 - 1 = p" "0 < p" for i
  proof -
    define g where "g = (p + 1) div 2 - 1"
    have gp: "g < p" using i by (auto simp: g_def)
    have pg: "sc (c ! g) \<le> sc (c ! p)" using A[of p] pn nl i by (simp add: g_def)
    have ip: "i \<noteq> p" using i by auto
    have "sc (?c ! g) \<le> sc (?c ! i)"
    proof (cases "i = n")
      case True
      with pg gp pn nl show ?thesis by simp
    next
      case False
      have "sc (c ! p) \<le> sc (c ! i)" using A[of i] i False by simp
      with False pg gp pn nl ip show ?thesis by simp
    qed
    then show ?thesis by (simp add: g_def)
  qed
  show ?thesis
    unfolding up_inv_def p_def[symmetric] using 1 2 pn nl by simp
qed

lemma bubbleUp_loop_heap:
  "up_inv sc c n \<Longrightarrow> c ! n = element \<Longrightarrow> heap_parent sc (bubbleUp_loop sc element n c)"
proof (induction sc element n c rule: bubbleUp_loop.induct)
  case (1 sc element n c)
  define p where "p = (n + 1) div 2 - 1"
  show ?case
  proof (cases "0 < n \<and> sc element < sc (c ! p)")
    case True
    then have pn: "p < n" by (auto simp: p_def)
    have nl: "n < length c" using "1.prems" by (simp add: up_inv_def)
    have "up_inv sc (c[p := c ! n, n := c ! p]) p"
      using up_inv_step[OF "1.prems"(1)] True "1.prems"(2) by (simp add: p_def)
    moreover have "c[p := c ! n, n := c ! p] ! p = element"
      using pn nl "1.prems"(2) by simp
    ultimately have "heap_parent sc (bubbleUp_loop sc element p (c[p := element, n := c ! p]))"
      using "1.IH"[of p "c ! p"] True "1.prems"(2) by (simp add: p_def)
    with True show ?thesis by (subst bubbleUp_loop.simps) (simp add: p_def Let_def)
  next
    case False
    have "heap_parent sc c"
      unfolding heap_parent_def
    proof (intro allI impI)
      fix i assume i: "i < length c" "0 < i"
      show "sc (c ! ((i + 1) div 2 - 1)) \<le> sc (c ! i)"
      proof (cases "i = n")
        case True
        with False i "1.prems"(2) show ?thesis by (auto simp: p_def)
      next
        case False
        with "1.prems"(1) i show ?thesis by (simp add: up_inv_def)
      qed
    qed
    with False show ?thesis by (subst bubbleUp_loop.simps) (auto simp: p_def Let_def)
  qed
qed


lemma sinkDown_swap_Some:
  assumes "sinkDown_swap sc es n c = Some s"
  shows "(s = 2 * n + 1 \<or> s = 2 * n + 2) \<and> s < length c \<and> sc (c ! s) < es \<and>
         (\<forall>i. (i = 2 * n + 1 \<or> i = 2 * n + 2) \<longrightarrow> i < length c \<longrightarrow> sc (c ! s) \<le> sc (c ! i))"
  using assms by (auto simp: sinkDown_swap_def Let_def mult.commute split: if_splits)

lemma sinkDown_swap_None:
  assumes "sinkDown_swap sc es n c = None"
  shows "\<forall>i. (i = 2 * n + 1 \<or> i = 2 * n + 2) \<longrightarrow> i < length c \<longrightarrow> es \<le> sc (c ! i)"
  using assms by (auto simp: sinkDown_swap_def Let_def mult.commute split: if_splits)

lemma parent_child:
  "0 < (i::nat) \<Longrightarrow> ((i + 1) div 2 - 1 = n) = (i = 2 * n + 1 \<or> i = 2 * n + 2)"
  by auto

lemma down_inv_step:
  assumes inv: "down_inv sc c n" and nl: "n < length c"
    and sw: "sinkDown_swap sc (sc (c ! n)) n c = Some s"
  shows "down_inv sc (c[n := c ! s, s := c ! n]) s"
proof -
  from sinkDown_swap_Some[OF sw]
  have s: "s = 2 * n + 1 \<or> s = 2 * n + 2" and sl: "s < length c"
    and less: "sc (c ! s) < sc (c ! n)"
    and least: "\<And>i. i = 2 * n + 1 \<or> i = 2 * n + 2 \<Longrightarrow> i < length c \<Longrightarrow> sc (c ! s) \<le> sc (c ! i)"
    by auto
  have ns: "n < s" using s by auto
  have ps: "(s + 1) div 2 - 1 = n" using s by auto
  let ?c = "c[n := c ! s, s := c ! n]"
  have A: "\<And>i. i < length c \<Longrightarrow> 0 < i \<Longrightarrow> (i + 1) div 2 - 1 \<noteq> n \<Longrightarrow>
        sc (c ! ((i + 1) div 2 - 1)) \<le> sc (c ! i)"
    using inv by (simp add: down_inv_def)
  have B: "\<And>i. i < length c \<Longrightarrow> 0 < i \<Longrightarrow> (i + 1) div 2 - 1 = n \<Longrightarrow> 0 < n \<Longrightarrow>
        sc (c ! ((n + 1) div 2 - 1)) \<le> sc (c ! i)"
    using inv by (simp add: down_inv_def)
  have 1: "sc (?c ! ((i + 1) div 2 - 1)) \<le> sc (?c ! i)"
    if i: "i < length c" "0 < i" "(i + 1) div 2 - 1 \<noteq> s" for i
  proof -
    define q where "q = (i + 1) div 2 - 1"
    have qi: "q < i" using i by (auto simp: q_def)
    have qs: "q \<noteq> s" using i by (simp add: q_def)
    consider "i = s" | "i = n" | "i \<noteq> s" "i \<noteq> n" "q = n" | "i \<noteq> s" "i \<noteq> n" "q \<noteq> n"
      by blast
    then have "sc (?c ! q) \<le> sc (?c ! i)"
    proof cases
      case 1
      then have "q = n" using ps by (simp add: q_def)
      with 1 less ns nl sl show ?thesis by simp
    next
      case 2
      then have qn: "q < n" using qi by simp
      have "sc (c ! q) \<le> sc (c ! s)" using B[of s] sl ns ps 2 i by (simp add: q_def)
      with 2 qn ns nl sl show ?thesis by simp
    next
      case 3
      then have "i = 2 * n + 1 \<or> i = 2 * n + 2" using i parent_child[of i n] by (simp add: q_def)
      then have "sc (c ! s) \<le> sc (c ! i)" using least i by simp
      with 3 ns nl sl show ?thesis by simp
    next
      case 4
      with A[of i] i qs ns nl sl show ?thesis by (simp add: q_def)
    qed
    then show ?thesis by (simp add: q_def)
  qed
  have 2: "sc (?c ! ((s + 1) div 2 - 1)) \<le> sc (?c ! i)"
    if i: "i < length c" "0 < i" "(i + 1) div 2 - 1 = s" for i
  proof -
    have "i \<noteq> n" "i \<noteq> s" using i ns by auto
    moreover have "sc (c ! s) \<le> sc (c ! i)" using A[of i] i ns by simp
    ultimately show ?thesis using ps ns nl sl by simp
  qed
  show ?thesis
    unfolding down_inv_def
  proof (intro conjI allI impI)
    fix i assume "i < length ?c" "0 < i" "(i + 1) div 2 - 1 \<noteq> s"
    then show "sc (?c ! ((i + 1) div 2 - 1)) \<le> sc (?c ! i)" using 1[of i] by simp
  next
    fix i assume "i < length ?c" "0 < i" "(i + 1) div 2 - 1 = s"
    then show "sc (?c ! ((s + 1) div 2 - 1)) \<le> sc (?c ! i)" using 2[of i] by simp
  qed
qed

lemma down_inv_done:
  assumes inv: "down_inv sc c n" and sw: "sinkDown_swap sc (sc (c ! n)) n c = None"
  shows "heap_parent sc c"
  unfolding heap_parent_def
proof (intro allI impI)
  fix i assume i: "i < length c" "0 < i"
  show "sc (c ! ((i + 1) div 2 - 1)) \<le> sc (c ! i)"
  proof (cases "(i + 1) div 2 - 1 = n")
    case True
    then have "i = 2 * n + 1 \<or> i = 2 * n + 2" using i parent_child[of i n] by simp
    with sinkDown_swap_None[OF sw, rule_format, of i] i True show ?thesis by simp
  next
    case False
    with inv i show ?thesis by (simp add: down_inv_def)
  qed
qed

lemma sinkDown_loop_heap:
  "down_inv sc c n \<Longrightarrow> c ! n = element \<Longrightarrow> n < length c \<Longrightarrow>
   heap_parent sc (sinkDown_loop sc element n c)"
proof (induction sc element n c rule: sinkDown_loop.induct)
  case (1 sc element n c)
  show ?case
  proof (cases "sinkDown_swap sc (sc element) n c")
    case None
    with down_inv_done[OF "1.prems"(1)] "1.prems"(2) show ?thesis
      by (subst sinkDown_loop.simps) simp
  next
    case (Some s)
    from sinkDown_swap_bounds[OF Some] have ns: "n < s" and sl: "s < length c" by auto
    have "down_inv sc (c[n := c ! s, s := c ! n]) s"
      using down_inv_step[OF "1.prems"(1,3)] Some "1.prems"(2) by simp
    then have "heap_parent sc (sinkDown_loop sc element s (c[n := c ! s, s := element]))"
      using "1.IH"[OF Some] "1.prems"(2) ns sl by simp
    with Some show ?thesis by (subst sinkDown_loop.simps) simp
  qed
qed

lemma bubbleUp_loop_mset:
  "n < length c \<Longrightarrow> c ! n = element \<Longrightarrow> mset (bubbleUp_loop sc element n c) = mset c"
proof (induction sc element n c rule: bubbleUp_loop.induct)
  case (1 sc element n c)
  define p where "p = (n + 1) div 2 - 1"
  show ?case
  proof (cases "0 < n \<and> sc element < sc (c ! p)")
    case True
    then have pn: "p < n" by (auto simp: p_def)
    have "mset (bubbleUp_loop sc element p (c[p := element, n := c ! p])) =
          mset (c[p := element, n := c ! p])"
      using "1.IH"[of p "c ! p"] True pn "1.prems" by (simp add: p_def)
    also have "\<dots> = mset c"
      using mset_swap[of n c p] pn "1.prems" by simp
    finally show ?thesis using True by (subst bubbleUp_loop.simps) (simp add: p_def Let_def)
  next
    case False
    then show ?thesis by (subst bubbleUp_loop.simps) (auto simp: p_def Let_def)
  qed
qed

lemma sinkDown_loop_mset:
  "n < length c \<Longrightarrow> c ! n = element \<Longrightarrow> mset (sinkDown_loop sc element n c) = mset c"
proof (induction sc element n c rule: sinkDown_loop.induct)
  case (1 sc element n c)
  show ?case
  proof (cases "sinkDown_swap sc (sc element) n c")
    case None
    then show ?thesis by (subst sinkDown_loop.simps) simp
  next
    case (Some s)
    from sinkDown_swap_bounds[OF Some] have ns: "n < s" and sl: "s < length c" by auto
    have "mset (sinkDown_loop sc element s (c[n := c ! s, s := element])) =
          mset (c[n := c ! s, s := element])"
      using "1.IH"[OF Some] ns sl by simp
    also have "\<dots> = mset c"
      using mset_swap[of s c n] ns sl "1.prems" by simp
    finally show ?thesis using Some by (subst sinkDown_loop.simps) simp
  qed
qed

lemma push_mset: "mset (push sc e c) = mset c + {#e#}"
  by (simp add: push_def bubbleUp_def bubbleUp_loop_mset)

lemma push_heap_parent:
  assumes "heap_parent sc c"
  shows "heap_parent sc (push sc e c)"
proof -
  have "up_inv sc (c @ [e]) (length c)"
    unfolding up_inv_def
  proof (intro conjI allI impI)
    show "length c < length (c @ [e])" by simp
  next
    fix i assume i: "i < length (c @ [e])" "0 < i" "i \<noteq> length c"
    then have il: "i < length c" by simp
    then have "(i + 1) div 2 - 1 < length c" by auto
    with assms il i show "sc ((c @ [e]) ! ((i + 1) div 2 - 1)) \<le> sc ((c @ [e]) ! i)"
      by (simp add: heap_parent_def nth_append)
  next
    fix i assume i: "i < length (c @ [e])" "0 < i" "(i + 1) div 2 - 1 = length c"
    then have False by auto
    then show "sc ((c @ [e]) ! ((length c + 1) div 2 - 1)) \<le> sc ((c @ [e]) ! i)" ..
  qed
  then show ?thesis
    by (simp add: push_def bubbleUp_def bubbleUp_loop_heap)
qed

lemma pop_fst: "c \<noteq> [] \<Longrightarrow> fst (pop sc c) = Some (c ! 0)"
  by (simp add: pop_def Let_def)

lemma butlast_not_Nil: "butlast c \<noteq> [] \<Longrightarrow> 1 < length c"
  by (cases c) (auto split: if_splits)

lemma pop_mset:
  assumes "c \<noteq> []"
  shows "mset (snd (pop sc c)) + {#c ! 0#} = mset c"
proof (cases "butlast c = []")
  case True
  with assms obtain x where "c = [x]"
    by (cases c) (auto split: if_splits)
  then show ?thesis by (simp add: pop_def Let_def)
next
  case False
  define b where "b = butlast c"
  have "b @ [last c] = c" using assms by (simp add: b_def)
  then have "mset b + {#last c#} = mset c"
    by (metis mset_append mset_single_iff_right)
  moreover have "b ! 0 = c ! 0" using False by (cases c) (auto simp: b_def nth_butlast)
  moreover have "0 < length (b[0 := last c])"
    using butlast_not_Nil[OF False] by (simp add: b_def)
  then have "mset (snd (pop sc c)) = mset (b[0 := last c])"
    using assms False sinkDown_loop_mset[of 0 "b[0 := last c]" _ sc, OF _ refl]
    by (simp add: pop_def Let_def sinkDown_def b_def)
  moreover have "mset (b[0 := last c]) + {#b ! 0#} = mset b + {#last c#}"
    using False by (cases b) (auto simp: b_def)
  ultimately show ?thesis by simp
qed

lemma pop_heap_parent:
  assumes "heap_parent sc c"
  shows "heap_parent sc (snd (pop sc c))"
proof (cases "butlast c = []")
  case True
  then show ?thesis by (simp add: pop_def Let_def heap_parent_def)
next
  case False
  define b where "b = butlast c"
  have bl: "length b < length c" "0 < length b"
    using butlast_not_Nil[OF False] by (auto simp: b_def)
  have "down_inv sc (b[0 := last c]) 0"
    unfolding down_inv_def
  proof (intro conjI allI impI)
    fix i assume i: "i < length (b[0 := last c])" "0 < i" "(i + 1) div 2 - 1 \<noteq> 0"
    then have "(i + 1) div 2 - 1 < i" by auto
    with assms i bl show "sc (b[0 := last c] ! ((i + 1) div 2 - 1)) \<le> sc (b[0 := last c] ! i)"
      by (simp add: heap_parent_def b_def nth_butlast)
  next
    fix i assume "(0::nat) < 0"
    then show "sc (b[0 := last c] ! ((0 + 1) div 2 - 1)) \<le> sc (b[0 := last c] ! i)" by simp
  qed
  then have "heap_parent sc (sinkDown_loop sc (last c) 0 (b[0 := last c]))"
    using bl by (intro sinkDown_loop_heap) auto
  then show ?thesis using False bl by (auto simp: pop_def Let_def sinkDown_def b_def)
qed

lemma heap_parent_root:
  assumes "heap_parent sc c" and "i < length c"
  shows "sc (c ! 0) \<le> sc (c ! i)"
  using assms(2)
proof (induction i rule: less_induct)
  case (less i)
  show ?case
  proof (cases "i = 0")
    case True
    then show ?thesis by simp
  next
    case False
    define p where "p = (i + 1) div 2 - 1"
    have "p < i" using False by (auto simp: p_def)
    then have "sc (c ! 0) \<le> sc (c ! p)" using less by simp
    moreover have "sc (c ! p) \<le> sc (c ! i)"
      using assms(1) less.prems False by (simp add: heap_parent_def p_def)
    ultimately show ?thesis by simp
  qed
qed




lemma push_heap_property: "heap_property sc c \<Longrightarrow> heap_property sc (push sc e c)"
  by (simp add: heap_property_parent push_heap_parent)

lemma pop_heap_property: "heap_property sc c \<Longrightarrow> heap_property sc (snd (pop sc c))"
  by (simp add: heap_property_parent pop_heap_parent)

lemma heap_property_root:
  "heap_property sc c \<Longrightarrow> x \<in> set c \<Longrightarrow> sc (c ! 0) \<le> sc x"
  by (auto simp: heap_property_parent in_set_conv_nth intro: heap_parent_root)

lemma run_ops_heap_property:
  "heap_property sc c \<Longrightarrow> heap_property sc (run_ops sc ops c)"
proof (induction ops arbitrary: c)
  case Nil
  then show ?case by simp
next
  case (Cons operation rest)
  have "heap_property sc (run_op sc operation c)"
    using Cons.prems by (cases operation) (simp_all add: push_heap_property pop_heap_property)
  then show ?case using Cons.IH by simp
qed

text \<open>
  Claim C8. Starting from any array with the heap property (the empty array of a new
  \<^verbatim>\<open>BinaryHeap\<close> has it), every sequence of \<^verbatim>\<open>push\<close> and \<^verbatim>\<open>pop\<close> calls leaves an
  array in which every entry scores at most as much as its children at \<open>2n+1\<close> and
  \<open>2n+2\<close>, equivalently at least as much as its parent at \<open>(n + 1) div 2 - 1\<close>; and the
  entry that \<^verbatim>\<open>peek\<close> and \<^verbatim>\<open>pop\<close> then return is one of least score.
\<close>

theorem heap_property_push_pop:
  assumes "heap_property scoreFunction content"
  shows "heap_property scoreFunction (run_ops scoreFunction ops content) \<and>
         heap_parent scoreFunction (run_ops scoreFunction ops content) \<and>
         (\<forall>m. peek (run_ops scoreFunction ops content) = Some m \<longrightarrow>
              fst (pop scoreFunction (run_ops scoreFunction ops content)) = Some m \<and>
              (\<forall>x \<in> set (run_ops scoreFunction ops content).
                  scoreFunction m \<le> scoreFunction x))"
proof -
  let ?c = "run_ops scoreFunction ops content"
  have h: "heap_property scoreFunction ?c"
    using assms by (rule run_ops_heap_property)
  moreover have "fst (pop scoreFunction ?c) = Some m \<and>
      (\<forall>x \<in> set ?c. scoreFunction m \<le> scoreFunction x)" if "peek ?c = Some m" for m
  proof -
    from that have ne: "?c \<noteq> []" and m: "m = ?c ! 0"
      by (auto simp: peek_def split: if_splits)
    show ?thesis
      using heap_property_root[OF h] pop_fst[OF ne] m by simp
  qed
  moreover have "heap_parent scoreFunction ?c"
    using h by (simp add: heap_property_parent)
  ultimately show ?thesis by blast
qed

theorem heap_property_push_pop_witness:
  "heap_property (\<lambda>x. x) ([] :: real list) \<and>
   run_ops (\<lambda>x. x) [Push 3, Push 1, Push 4, Push 2, Pop] [] = [2, 3, 4 :: real] \<and>
   heap_property (\<lambda>x. x) [2, 3, 4 :: real] \<and>
   peek [2, 3, 4 :: real] = Some 2 \<and>
   fst (pop (\<lambda>x. x) [2, 3, 4 :: real]) = Some 2 \<and>
   (2 :: real) \<le> 3 \<and> (2 :: real) \<le> 4"
proof -
  have e: "heap_property (\<lambda>x. x) ([] :: real list)"
    by (simp add: heap_property_def)
  have r: "run_ops (\<lambda>x. x) [Push 3, Push 1, Push 4, Push 2, Pop] [] = [2, 3, 4 :: real]"
    by (simp add: push_def pop_def bubbleUp_def sinkDown_def bubbleUp_loop.simps
        sinkDown_loop.simps sinkDown_swap_def Let_def)
  have p: "peek [2, 3, 4 :: real] = Some 2"
    by (simp add: peek_def)
  show ?thesis
    using heap_property_push_pop[OF e, of "[Push 3, Push 1, Push 4, Push 2, Pop]"] e p
    unfolding r by simp
qed

section \<open>The build: proofs\<close>

lemma getPointSet_eq: "getPointSet e w i = take e (drop (i * e) w)"
  by (simp add: getPointSet_def subarray_def)

lemma length_concat_points:
  "\<forall>p \<in> set ps. length p = e \<Longrightarrow> length (concat ps) = length ps * e"
  by (induction ps) auto

lemma take_concat_points:
  "\<forall>p \<in> set ps. length p = e \<Longrightarrow> take (m * e) (concat ps) = concat (take m ps)"
proof (induction ps arbitrary: m)
  case Nil
  then show ?case by simp
next
  case (Cons p ps)
  then show ?case by (cases m) auto
qed

lemma drop_concat_points:
  "\<forall>p \<in> set ps. length p = e \<Longrightarrow> drop (m * e) (concat ps) = concat (drop m ps)"
proof (induction ps arbitrary: m)
  case Nil
  then show ?case by simp
next
  case (Cons p ps)
  then show ?case by (cases m) auto
qed

lemma getPointSet_concat:
  assumes "\<forall>p \<in> set ps. length p = e" and "m < length ps"
  shows "getPointSet e (concat ps) m = ps ! m"
proof -
  have "drop m ps = ps ! m # drop (Suc m) ps"
    using assms(2) by (simp add: Cons_nth_drop_Suc)
  moreover have "length (ps ! m) = e" using assms by simp
  ultimately show ?thesis
    using assms(1) by (simp add: getPointSet_eq drop_concat_points)
qed

lemma pointsOf_concat:
  assumes "\<forall>p \<in> set ps. length p = e" and "0 < e"
  shows "pointsOf e (concat ps) = ps"
proof -
  have "map (getPointSet e (concat ps)) [0..<length ps] = map ((!) ps) [0..<length ps]"
    using assms(1) by (intro map_cong) (auto simp: getPointSet_concat)
  moreover have "length (concat ps) div e = length ps"
    using assms length_concat_points[OF assms(1)] by simp
  ultimately show ?thesis
    unfolding pointsOf_def by (simp add: map_nth del: length_concat)
qed

lemma getPointSet_Suc: "getPointSet e w (Suc i) = getPointSet e (drop e w) i"
proof -
  have "Suc i * e = i * e + e" by simp
  then show ?thesis unfolding getPointSet_eq drop_drop by (simp only:)
qed

lemma upt_Suc_shift: "[0..<Suc k] = 0 # map Suc [0..<k]"
  by (simp only: map_Suc_upt upt_conv_Cons[of 0 "Suc k"] zero_less_Suc)

lemma pointsOf_step:
  assumes "0 < e" and "e \<le> length w"
  shows "pointsOf e w = take e w # pointsOf e (drop e w)"
proof -
  define k where "k = (length w - e) div e"
  have d: "length w div e = Suc k"
    using le_div_geq[OF assms] by (simp only: k_def)
  have k: "length (drop e w) div e = k"
    by (simp add: k_def)
  have "getPointSet e w 0 = take e w"
    by (simp add: getPointSet_eq)
  then show ?thesis
    unfolding pointsOf_def d k upt_Suc_shift
    by (simp only: list.map map_map comp_def getPointSet_Suc)
qed

lemma concat_pointsOf:
  assumes "0 < e"
  shows "length w = n * e \<Longrightarrow>
         concat (pointsOf e w) = w \<and> (\<forall>p \<in> set (pointsOf e w). length p = e)"
proof (induction n arbitrary: w)
  case 0
  then show ?case by (simp add: pointsOf_def)
next
  case (Suc n)
  then have le: "e \<le> length w" and dl: "length (drop e w) = n * e" by simp_all
  note c = Suc.IH[OF dl, THEN conjunct1] and l = Suc.IH[OF dl, THEN conjunct2]
  have "concat (pointsOf e w) = take e w @ drop e w"
    unfolding pointsOf_step[OF assms le] using c by simp
  moreover have "length (take e w) = e" using le by simp
  ultimately show ?case
    unfolding pointsOf_step[OF assms le] using l by simp
qed

lemma buildTree_Null:
  "length w = 0 \<Longrightarrow> \<exists>st'. buildTree srt e w d p0 st = (Null, w, st')"
  by (subst buildTree.simps) (simp add: Let_def)

lemma buildTree_Leaf:
  "0 < e \<Longrightarrow> length w = e \<Longrightarrow>
   \<exists>st'. buildTree srt e w d p0 st = (Node (getPointSet e w 0) Null Null d p0, w, st')"
  by (subst buildTree.simps) (simp add: Let_def)

lemma buildTree_Node:
  assumes "0 < e" and "length w \<noteq> 0" and "length w \<noteq> e"
  shows "\<exists>st2 st3 l lw r rw.
     buildTree srt e (subarray 0 (length w div e div 2 * e) (srt w e (d mod e)))
        (d + 1) p0 (if maxDepth st < d then st\<lparr>maxDepth := d\<rparr> else st) = (l, lw, st2) \<and>
     buildTree srt e (subarray ((length w div e div 2 + 1) * e) (length w) (srt w e (d mod e)))
        (d + 1) (p0 + length w div e div 2 + 1) st2 = (r, rw, st3) \<and>
     buildTree srt e w d p0 st =
       (Node (getPointSet e (srt w e (d mod e)) (length w div e div 2)) l r d
          (length w div e div 2 + p0),
        lw @ getPointSet e (srt w e (d mod e)) (length w div e div 2) @ rw, st3)"
  using assms
  by (subst (3) buildTree.simps) (simp add: Let_def case_prod_beta prod_eq_iff)

lemma sorted_take_le:
  assumes "sorted (map f qs)" and "m < length qs" and "x \<in> set (take m qs)"
  shows "f x \<le> f (qs ! m)"
proof -
  from assms(3) obtain i where i: "i < m" "i < length qs" "x = qs ! i"
    by (auto simp: in_set_conv_nth)
  then have "map f qs ! i \<le> map f qs ! m"
    using assms(1,2) by (intro sorted_nth_mono) auto
  with i assms(2) show ?thesis by simp
qed

lemma sorted_drop_ge:
  assumes "sorted (map f qs)" and "m < length qs" and "x \<in> set (drop (Suc m) qs)"
  shows "f (qs ! m) \<le> f x"
proof -
  from assms(3) obtain i where "i < length qs - Suc m" "x = qs ! (Suc m + i)"
    by (auto simp: in_set_conv_nth)
  then have i: "Suc m + i < length qs" "x = qs ! (Suc m + i)" by simp_all
  then have "map f qs ! m \<le> map f qs ! (Suc m + i)"
    using assms(1,2) by (intro sorted_nth_mono) auto
  with i assms(2) show ?thesis by simp
qed

lemma buildTree_built:
  assumes srt: "sorts_points e srt" and e: "0 < e"
  shows "\<forall>p \<in> set ps. length p = e \<Longrightarrow>
         \<exists>t ps' st'. buildTree srt e (concat ps) d p0 st = (t, concat ps', st') \<and>
                     built e d p0 ps t ps'"
proof (induction "length ps" arbitrary: ps d p0 st rule: less_induct)
  case less
  note len = less.prems
  have wl: "length (concat ps) = length ps * e"
    using len by (rule length_concat_points)
  consider "length ps = 0" | "length ps = 1" | "2 \<le> length ps" by linarith
  then show ?case
  proof cases
    case 1
    then have "ps = []" by simp
    then show ?thesis
      using buildTree_Null[of "concat ps" srt e d p0 st] by (auto simp: built_def)
  next
    case 2
    then obtain p where ps: "ps = [p]" by (cases ps) auto
    with len have pl: "length p = e" by simp
    then have "getPointSet e p 0 = p" by (simp add: getPointSet_eq)
    with buildTree_Leaf[OF e, of p srt d p0 st] pl
    obtain st' where "buildTree srt e (concat ps) d p0 st = (Node p Null Null d p0, concat [p], st')"
      using ps by auto
    moreover have "built e d p0 ps (Node p Null Null d p0) [p]"
      by (simp add: built_def ps)
    ultimately show ?thesis by blast
  next
    case 3
    define w where "w = concat ps"
    define N where "N = length ps"
    define axis where "axis = d mod e"
    define m where "m = N div 2"
    have N2: "2 \<le> N" using 3 by (simp add: N_def)
    have mN: "m < N" using N2 by (simp add: m_def)
    have wN: "length w = N * e" using wl by (simp add: w_def N_def)
    have w0: "length w \<noteq> 0" using wN N2 e by simp
    have we: "length w \<noteq> e" using wN N2 e by simp
    have m: "length w div e div 2 = m" using wN e by (simp add: m_def)
    have "axis < e" using e by (simp add: axis_def)
    with srt len obtain qs where qs: "srt w e axis = concat qs" "mset qs = mset ps"
      and sorted: "sorted (map (\<lambda>p. p ! axis) qs)"
      unfolding sorts_points_def w_def by blast
    have ql: "\<forall>q \<in> set qs. length q = e"
      using len mset_eq_setD[OF qs(2)] by simp
    have qN: "length qs = N"
      using mset_eq_length[OF qs(2)] by (simp add: N_def)
    have lwin: "subarray 0 (m * e) (concat qs) = concat (take m qs)"
      using take_concat_points[OF ql] by (simp add: subarray_def)
    have "length (concat (drop (Suc m) qs)) = N * e - (m + 1) * e"
      using length_concat_points[of "drop (Suc m) qs" e] ql qN
      by (auto simp: diff_mult_distrib dest: in_set_dropD)
    then have rwin: "subarray ((m + 1) * e) (length w) (concat qs) = concat (drop (Suc m) qs)"
      using drop_concat_points[OF ql, of "m + 1"] by (simp add: subarray_def wN)
    have mid: "getPointSet e (concat qs) m = qs ! m"
      using getPointSet_concat[OF ql] mN qN by simp
    from buildTree_Node[OF e w0 we, of srt d p0 st]
    obtain st2 st3 l lw r rw where
      L: "buildTree srt e (concat (take m qs)) (d + 1) p0
            (if maxDepth st < d then st\<lparr>maxDepth := d\<rparr> else st) = (l, lw, st2)" and
      R: "buildTree srt e (concat (drop (Suc m) qs)) (d + 1) (p0 + m + 1) st2 = (r, rw, st3)" and
      T: "buildTree srt e w d p0 st = (Node (qs ! m) l r d (m + p0), lw @ qs ! m @ rw, st3)"
      unfolding m axis_def[symmetric] qs(1) lwin rwin mid by blast
    have lless: "length (take m qs) < length ps" using mN qN by (simp add: N_def)
    have llen: "\<forall>p \<in> set (take m qs). length p = e"
      using ql by (auto dest: in_set_takeD)
    from less.hyps[OF lless llen, of "d + 1" p0
        "if maxDepth st < d then st\<lparr>maxDepth := d\<rparr> else st"]
    obtain lps where lps: "lw = concat lps" "built e (d + 1) p0 (take m qs) l lps"
      unfolding L by auto
    have rless: "length (drop (Suc m) qs) < length ps" using mN qN by (simp add: N_def)
    have rlen: "\<forall>p \<in> set (drop (Suc m) qs). length p = e"
      using ql by (auto dest: in_set_dropD)
    from less.hyps[OF rless rlen, of "d + 1" "p0 + m + 1" st2]
    obtain rps where
      rps: "rw = concat rps" "built e (d + 1) (p0 + m + 1) (drop (Suc m) qs) r rps"
      unfolding R by auto
    define ps' where "ps' = lps @ [qs ! m] @ rps"
    have split: "qs = take m qs @ qs ! m # drop (Suc m) qs"
      using mN qN by (simp add: id_take_nth_drop)
    have lm: "length lps = m"
      using mset_eq_length[of lps "take m qs"] lps(2) mN qN by (simp add: built_def)
    have b1: "mset ps' = mset ps"
    proof -
      have "mset ps' = mset (take m qs) + {#qs ! m#} + mset (drop (Suc m) qs)"
        using lps(2) rps(2) by (simp add: ps'_def built_def)
      also have "\<dots> = mset (take m qs @ qs ! m # drop (Suc m) qs)" by simp
      also have "\<dots> = mset ps" using split qs(2) by simp
      finally show ?thesis .
    qed
    have b2: "mset (map obj (nodes (Node (qs ! m) l r d (m + p0)))) = mset ps"
    proof -
      have "mset (map obj (nodes (Node (qs ! m) l r d (m + p0)))) =
            mset (take m qs) + {#qs ! m#} + mset (drop (Suc m) qs)"
        using lps(2) rps(2) by (simp add: built_def)
      also have "\<dots> = mset (take m qs @ qs ! m # drop (Suc m) qs)" by simp
      also have "\<dots> = mset ps" using split qs(2) by simp
      finally show ?thesis .
    qed
    have b3: "p0 \<le> pos n \<and> pos n < p0 + length ps \<and> ps' ! (pos n - p0) = obj n"
      if "n \<in> set (nodes (Node (qs ! m) l r d (m + p0)))" for n
    proof -
      from that consider "n = Node (qs ! m) l r d (m + p0)" | "n \<in> set (nodes l)"
        | "n \<in> set (nodes r)" by auto
      then show ?thesis
      proof cases
        case 1
        then show ?thesis using mN lm by (simp add: ps'_def N_def nth_append)
      next
        case 2
        then have l: "p0 \<le> pos n \<and> pos n < p0 + m \<and> lps ! (pos n - p0) = obj n"
          using lps(2) mN qN by (simp add: built_def)
        then have "pos n - p0 < m" by linarith
        with l show ?thesis using mN lm by (simp add: ps'_def N_def nth_append)
      next
        case 3
        then have r: "p0 + m + 1 \<le> pos n \<and> pos n < p0 + m + 1 + (N - Suc m) \<and>
            rps ! (pos n - (p0 + m + 1)) = obj n"
          using rps(2) mN qN by (simp add: built_def)
        then have "pos n - p0 - m - 1 = pos n - (p0 + m + 1)" "\<not> pos n - p0 < m"
          "pos n - p0 - m \<noteq> 0" "pos n - p0 - m = Suc (pos n - (p0 + m + 1))"
          "pos n < p0 + N" "p0 \<le> pos n"
          using mN by linarith+
        with r show ?thesis using mN lm by (simp add: ps'_def N_def nth_append)
      qed
    qed
    have b4: "partition_inv e d (Node (qs ! m) l r d (m + p0))"
    proof -
      have "obj n ! axis \<le> qs ! m ! axis" if "n \<in> set (nodes l)" for n
      proof -
        have "obj n \<in> set (map obj (nodes l))" using that by simp
        then have "obj n \<in> set (take m qs)"
          using lps(2) mset_eq_setD[of "map obj (nodes l)" "take m qs"]
          by (simp add: built_def)
        then show ?thesis using sorted_take_le[OF sorted] mN qN by simp
      qed
      moreover have "qs ! m ! axis \<le> obj n ! axis" if "n \<in> set (nodes r)" for n
      proof -
        have "obj n \<in> set (map obj (nodes r))" using that by simp
        then have "obj n \<in> set (drop (Suc m) qs)"
          using rps(2) mset_eq_setD[of "map obj (nodes r)" "drop (Suc m) qs"]
          by (simp add: built_def)
        then show ?thesis using sorted_drop_ge[OF sorted] mN qN by simp
      qed
      ultimately show ?thesis
        using lps(2) rps(2) by (simp add: built_def axis_def)
    qed
    have "built e d p0 ps (Node (qs ! m) l r d (m + p0)) ps'"
      unfolding built_def using b1 b2 b3 b4 by blast
    moreover have "lw @ qs ! m @ rw = concat ps'"
      by (simp add: ps'_def lps(1) rps(1))
    ultimately show ?thesis using T by (auto simp: w_def)
  qed
qed

section \<open>The search: proofs\<close>

lemma push_length: "length (push sc x c) = Suc (length c)"
  using push_mset[of sc x c, THEN arg_cong, of size] by simp

lemma push_set: "set (push sc x c) = insert x (set c)"
  using push_mset[of sc x c, THEN arg_cong, of set_mset] by simp

lemma pop_length: "length (snd (pop sc c)) = length c - 1"
proof (cases "c = []")
  case True
  then show ?thesis by (simp add: pop_def)
next
  case False
  from pop_mset[OF False, of sc, THEN arg_cong, of size] show ?thesis by simp
qed

lemma pop_set: "set (snd (pop sc c)) \<subseteq> set c"
proof (cases "c = []")
  case True
  then show ?thesis by (simp add: pop_def)
next
  case False
  from pop_mset[OF False, of sc, THEN arg_cong, of set_mset] show ?thesis by auto
qed

lemma peek_Some: "c \<noteq> [] \<Longrightarrow> peek c = Some (c ! 0)"
  by (simp add: peek_def)

lemma room_or_nearer_total:
  assumes "1 \<le> k"
  shows "\<exists>b. room_or_nearer k x h = Inr b"
  using assms by (cases h) (auto simp: room_or_nearer_def size_heap_def peek_def)

lemma saveIfBetter_length:
  assumes "1 \<le> k" and "int (length h) \<le> k"
  shows "\<exists>h'. saveIfBetter k n x h = Inr h' \<and>
           int (length h') = min k (int (length h) + 1) \<and> set h' \<subseteq> insert (n, x) (set h)"
proof -
  from room_or_nearer_total[OF assms(1)] obtain b where b: "room_or_nearer k x h = Inr b"
    by blast
  show ?thesis
  proof (cases b)
    case False
    then have "\<not> int (length h) < k"
      using b by (auto simp: room_or_nearer_def size_heap_def split: if_splits)
    with False b assms show ?thesis by (auto simp: saveIfBetter_def)
  next
    case True
    have "set (snd (pop score (push score (n, x) h))) \<subseteq> insert (n, x) (set h)"
      using pop_set[of score "push score (n, x) h"] by (simp add: push_set)
    with True b assms show ?thesis
      by (auto simp: saveIfBetter_def saveNode_def size_heap_def Let_def push_length
          pop_length push_set)
  qed
qed

lemma nearestSearch_inner:
  assumes "\<not> (r = Null \<and> l = Null)"
  shows "\<exists>near far. near \<noteq> Null \<and>
      ((near = l \<and> far = r \<and> (r \<noteq> Null \<longrightarrow> q ! (d mod e) < ob ! (d mod e))) \<or>
       (near = r \<and> far = l \<and> (l \<noteq> Null \<longrightarrow> \<not> q ! (d mod e) < ob ! (d mod e)))) \<and>
      (\<forall>h. nearestSearch mt e q k (Node ob l r d p0) h =
        (case nearestSearch mt e q k near h of
           Inl er \<Rightarrow> Inl er
         | Inr h1 \<Rightarrow>
            (case saveIfBetter k (Node ob l r d p0) (mt q ob) h1 of
               Inl er \<Rightarrow> Inl er
             | Inr h2 \<Rightarrow>
                (case room_or_nearer k \<bar>mt (linearPoint e q ob d) ob\<bar> h2 of
                   Inl er \<Rightarrow> Inl er
                 | Inr explore \<Rightarrow>
                     if explore \<and> far \<noteq> Null then nearestSearch mt e q k far h2
                     else Inr h2))))"
proof -
  define bestIsLeft where "bestIsLeft =
     (if r = Null then True else if l = Null then False else q ! (d mod e) < ob ! (d mod e))"
  define near where "near = (if bestIsLeft then l else r)"
  define far where "far = (if bestIsLeft then r else l)"
  have "near \<noteq> Null" using assms by (auto simp: near_def bestIsLeft_def)
  moreover have "(near = l \<and> far = r \<and> (r \<noteq> Null \<longrightarrow> q ! (d mod e) < ob ! (d mod e))) \<or>
       (near = r \<and> far = l \<and> (l \<noteq> Null \<longrightarrow> \<not> q ! (d mod e) < ob ! (d mod e)))"
    using assms by (auto simp: near_def far_def bestIsLeft_def)
  moreover have "nearestSearch mt e q k (Node ob l r d p0) h =
        (case nearestSearch mt e q k near h of
           Inl er \<Rightarrow> Inl er
         | Inr h1 \<Rightarrow>
            (case saveIfBetter k (Node ob l r d p0) (mt q ob) h1 of
               Inl er \<Rightarrow> Inl er
             | Inr h2 \<Rightarrow>
                (case room_or_nearer k \<bar>mt (linearPoint e q ob d) ob\<bar> h2 of
                   Inl er \<Rightarrow> Inl er
                 | Inr explore \<Rightarrow>
                     if explore \<and> far \<noteq> Null then nearestSearch mt e q k far h2
                     else Inr h2)))" for h
    using assms
    by (simp add: Let_def near_def far_def bestIsLeft_def split: sum.splits)
  ultimately show ?thesis by blast
qed

lemma nearestSearch_leaf:
  "nearestSearch mt e q k (Node ob Null Null d p0) h =
     saveIfBetter k (Node ob Null Null d p0) (mt q ob) h"
  by (simp add: Let_def)

lemma room_or_nearer_False:
  "room_or_nearer k x h = Inr False \<Longrightarrow> \<not> int (length h) < k"
  by (auto simp: room_or_nearer_def size_heap_def split: if_splits)

lemma nearestSearch_length:
  assumes k: "1 \<le> k"
  shows "t \<noteq> Null \<Longrightarrow> int (length h) \<le> k \<Longrightarrow>
     \<exists>h'. nearestSearch mt e q k t h = Inr h' \<and>
          int (length h') = min k (int (length h) + int (length (nodes t))) \<and>
          set h' \<subseteq> set h \<union> set (entries mt q t)"
proof (induction t arbitrary: h)
  case Null
  then show ?case by simp
next
  case (Node ob l r d p0)
  let ?node = "Node ob l r d p0"
  show ?case
  proof (cases "r = Null \<and> l = Null")
    case True
    with saveIfBetter_length[OF k Node.prems(2), of ?node "mt q ob"] show ?thesis
      by (auto simp: entries_def Let_def)
  next
    case False
    from nearestSearch_inner[OF False, of q d e ob mt k p0]
    obtain near far where near: "near \<noteq> Null"
      and sides: "(near = l \<and> far = r) \<or> (near = r \<and> far = l)"
      and unfold: "\<And>h. nearestSearch mt e q k ?node h =
        (case nearestSearch mt e q k near h of
           Inl er \<Rightarrow> Inl er
         | Inr h1 \<Rightarrow>
            (case saveIfBetter k ?node (mt q ob) h1 of
               Inl er \<Rightarrow> Inl er
             | Inr h2 \<Rightarrow>
                (case room_or_nearer k \<bar>mt (linearPoint e q ob d) ob\<bar> h2 of
                   Inl er \<Rightarrow> Inl er
                 | Inr explore \<Rightarrow>
                     if explore \<and> far \<noteq> Null then nearestSearch mt e q k far h2
                     else Inr h2)))"
      by blast
    have IHnear: "\<exists>h'. nearestSearch mt e q k near h = Inr h' \<and>
          int (length h') = min k (int (length h) + int (length (nodes near))) \<and>
          set h' \<subseteq> set h \<union> set (entries mt q near)" if "int (length h) \<le> k" for h
      using sides Node.IH near that by auto
    have IHfar: "\<exists>h'. nearestSearch mt e q k far h = Inr h' \<and>
          int (length h') = min k (int (length h) + int (length (nodes far))) \<and>
          set h' \<subseteq> set h \<union> set (entries mt q far)"
      if "int (length h) \<le> k" "far \<noteq> Null" for h
      using sides Node.IH that by auto
    have cnt: "length (nodes ?node) = 1 + length (nodes near) + length (nodes far)"
      using sides by auto
    have ent: "set (entries mt q ?node) =
        insert (?node, mt q ob) (set (entries mt q near) \<union> set (entries mt q far))"
      using sides by (auto simp: entries_def)
    from IHnear[OF Node.prems(2)] obtain h1 where
      h1: "nearestSearch mt e q k near h = Inr h1"
        "int (length h1) = min k (int (length h) + int (length (nodes near)))"
        "set h1 \<subseteq> set h \<union> set (entries mt q near)" by blast
    then have h1k: "int (length h1) \<le> k" by simp
    from saveIfBetter_length[OF k h1k, of ?node "mt q ob"] obtain h2 where
      h2: "saveIfBetter k ?node (mt q ob) h1 = Inr h2"
        "int (length h2) = min k (int (length h1) + 1)"
        "set h2 \<subseteq> insert (?node, mt q ob) (set h1)" by blast
    then have h2k: "int (length h2) \<le> k" by simp
    from room_or_nearer_total[OF k] obtain explore where
      ex: "room_or_nearer k \<bar>mt (linearPoint e q ob d) ob\<bar> h2 = Inr explore" by blast
    show ?thesis
    proof (cases "explore \<and> far \<noteq> Null")
      case True
      from IHfar[OF h2k] True obtain h3 where
        h3: "nearestSearch mt e q k far h2 = Inr h3"
          "int (length h3) = min k (int (length h2) + int (length (nodes far)))"
          "set h3 \<subseteq> set h2 \<union> set (entries mt q far)" by blast
      have "nearestSearch mt e q k ?node h = Inr h3"
        using unfold[of h] h1(1) h2(1) ex h3(1) True by simp
      moreover have "int (length h3) = min k (int (length h) + int (length (nodes ?node)))"
        unfolding cnt using h3(2) h2(2) h1(2) by (simp add: min_def)
      moreover have "set h3 \<subseteq> set h \<union> set (entries mt q ?node)"
        unfolding ent using h3(3) h2(3) h1(3) by blast
      ultimately show ?thesis by blast
    next
      case False
      have "nearestSearch mt e q k ?node h = Inr h2"
        using unfold[of h] h1(1) h2(1) ex False by auto
      moreover have "int (length h2) = min k (int (length h) + int (length (nodes ?node)))"
      proof (cases "far = Null")
        case True
        then show ?thesis unfolding cnt using h2(2) h1(2) by (simp add: min_def)
      next
        case far: False
        with False ex have "\<not> int (length h2) < k"
          using room_or_nearer_False by auto
        with h2k have a: "int (length h2) = k" by linarith
        have b: "int (length h1) \<le> int (length h) + int (length (nodes near))"
          using h1(2) by linarith
        have c: "k \<le> int (length h1) + 1" using a h2(2) by linarith
        show ?thesis unfolding cnt using a b c by simp
      qed
      moreover have "set h2 \<subseteq> set h \<union> set (entries mt q ?node)"
        unfolding ent using h2(3) h1(3) by blast
      ultimately show ?thesis by blast
    qed
  qed
qed

lemma collect_eq:
  "collect k c i res =
     (if nat k \<le> i \<or> nat k \<le> length c
      then Inr (res @ filter (\<lambda>x. fst x \<noteq> Null) (take (nat k - i) (drop i c)))
      else Inl TypeError)"
proof (induction k c i res rule: collect.induct)
  case (1 k c i res)
  show ?case
  proof (cases "int i < k")
    case False
    then have "nat k \<le> i" by simp
    with False show ?thesis by (subst collect.simps) simp
  next
    case True
    then have ik: "i < nat k" by simp
    show ?thesis
    proof (cases "i < length c")
      case False
      with True ik show ?thesis by (subst collect.simps) simp
    next
      case il: True
      have d: "drop i c = c ! i # drop (Suc i) c"
        using il by (simp add: Cons_nth_drop_Suc)
      have t: "nat k - i = Suc (nat k - Suc i)" using ik by simp
      have "collect k c i res = collect k c (i + 1)
          (if fst (c ! i) \<noteq> Null then res @ [(fst (c ! i), snd (c ! i))] else res)"
        using True il by (subst collect.simps) simp
      also have "\<dots> =
         (if nat k \<le> i + 1 \<or> nat k \<le> length c
          then Inr ((if fst (c ! i) \<noteq> Null then res @ [(fst (c ! i), snd (c ! i))] else res) @
                 filter (\<lambda>x. fst x \<noteq> Null) (take (nat k - (i + 1)) (drop (i + 1) c)))
          else Inl TypeError)"
        using "1.IH"[OF True il] by simp
      also have "\<dots> =
         (if nat k \<le> i \<or> nat k \<le> length c
          then Inr (res @ filter (\<lambda>x. fst x \<noteq> Null) (take (nat k - i) (drop i c)))
          else Inl TypeError)"
        using ik il unfolding d t by auto
      finally show ?thesis .
    qed
  qed
qed

lemma nearest_None:
  "nearest self q k None =
     (case nearestSearch (metric self) (eleSize self) q k (root self) [] of
        Inl er \<Rightarrow> Inl er
      | Inr h \<Rightarrow> collect k h 0 [])"
  by (simp add: nearest_def)

lemma entries_not_Null: "x \<in> set (entries mt q t) \<Longrightarrow> fst x \<noteq> Null"
  by (induction t) (auto simp: entries_def)

lemma nearest_no_radius:
  assumes k: "1 \<le> k" and t: "root self \<noteq> Null"
  shows "(k \<le> int (length (nodes (root self))) \<longrightarrow>
            (\<exists>res. nearest self q k None = Inr res \<and> int (length res) = k)) \<and>
         (int (length (nodes (root self))) < k \<longrightarrow> nearest self q k None = Inl TypeError)"
proof -
  from nearestSearch_length[OF k t, of "[]" "metric self" "eleSize self" q]
  obtain h where h: "nearestSearch (metric self) (eleSize self) q k (root self) [] = Inr h"
    "int (length h) = min k (int (length (nodes (root self))))"
    "set h \<subseteq> set (entries (metric self) q (root self))" using k by auto
  have n: "nearest self q k None = collect k h 0 []"
    using h(1) by (simp add: nearest_None)
  have real: "filter (\<lambda>x. fst x \<noteq> Null) h = h"
    using h(3) entries_not_Null by (auto simp: filter_id_conv)
  show ?thesis
  proof (intro conjI impI)
    assume le: "k \<le> int (length (nodes (root self)))"
    then have "length h = nat k" using h(2) by simp
    then have "nearest self q k None = Inr h"
      unfolding n collect_eq using real by simp
    then show "\<exists>res. nearest self q k None = Inr res \<and> int (length res) = k"
      using h(2) le by simp
  next
    assume "int (length (nodes (root self))) < k"
    then have "length h < nat k" using h(2) k by simp
    then show "nearest self q k None = Inl TypeError"
      unfolding n collect_eq using k by simp
  qed
qed

section \<open>The claims about the build\<close>

lemma quickSortIP_spec_sorts:
  assumes "0 < e"
  shows "sorts_points e quickSortIP_spec"
  unfolding sorts_points_def
proof (intro allI impI)
  fix ps :: "point list" and axis
  assume len: "\<forall>p \<in> set ps. length p = e"
  have "length (concat ps) div e * e = length (concat ps)"
    using length_concat_points[OF len] assms by simp
  then have "quickSortIP_spec (concat ps) e axis = concat (sort_key (\<lambda>p. p ! axis) ps)"
    using pointsOf_concat[OF len assms] by (simp add: quickSortIP_spec_def)
  then show "\<exists>qs. quickSortIP_spec (concat ps) e axis = concat qs \<and> mset qs = mset ps \<and>
              sorted (map (\<lambda>p. p ! axis) qs)"
    by (intro exI[of _ "sort_key (\<lambda>p. p ! axis) ps"]) simp
qed

lemma kdTree_built:
  assumes "sorts_points e srt" and "0 < e" and "e dvd length points"
  shows "\<exists>self ps'. kdTree srt points mt e = Inr self \<and> metric self = mt \<and>
           eleSize self = e \<and> buffer self = concat ps' \<and>
           built e 0 0 (pointsOf e points) (root self) ps'"
proof -
  from assms(3) obtain n where "length points = n * e"
    by (metis dvd_def mult.commute)
  from concat_pointsOf[OF assms(2) this]
  have c: "concat (pointsOf e points) = points"
    and l: "\<forall>p \<in> set (pointsOf e points). length p = e" by simp_all
  from buildTree_built[OF assms(1,2) l, of 0 0 "\<lparr>maxDepth = 0, amountOfLeafDepthNodes = 0\<rparr>"]
  obtain t ps' st' where
    "buildTree srt e points 0 0 \<lparr>maxDepth = 0, amountOfLeafDepthNodes = 0\<rparr> = (t, concat ps', st')"
    "built e 0 0 (pointsOf e points) t ps'"
    unfolding c by blast
  then show ?thesis using assms(2) by (auto simp: kdTree_def)
qed

text \<open>
  Claim C3. For every buffer of whole points and every sorter that orders a window
  along the partition axis, the build returns a tree in which every node stores its
  depth \<open>d\<close> (the root 0, a child one more than its parent), no point of its left
  subtree has a larger coordinate \<open>d mod e\<close> than the node, and no point of its right
  subtree a smaller one.
\<close>

theorem build_partition_invariant:
  assumes "sorts_points e quickSortIP" and "0 < e" and "e dvd length points"
  shows "\<exists>self. kdTree quickSortIP points mt e = Inr self \<and> partition_inv e 0 (root self)"
  using kdTree_built[OF assms, of mt] by (auto simp: built_def)

theorem build_partition_invariant_witness:
  "sorts_points 2 quickSortIP_spec \<and> (2::nat) dvd length [0, 0, 1, 0, 0, 1, 5, 5 :: real] \<and>
   root (projr (kdTree quickSortIP_spec [0, 0, 1, 0, 0, 1, 5, 5] squaredEuclidean 2)) =
     Node [1, 0] (Node [0, 1] (Node [0, 0] Null Null 2 0) Null 1 1) (Node [5, 5] Null Null 1 3) 0 2 \<and>
   partition_inv 2 0
     (Node [1, 0] (Node [0, 1] (Node [0, 0] Null Null 2 0) Null 1 1) (Node [5, 5] Null Null 1 3) 0 2)"
proof -
  have s: "sorts_points 2 quickSortIP_spec" by (rule quickSortIP_spec_sorts) simp
  have d: "(2::nat) dvd length [0, 0, 1, 0, 0, 1, 5, 5 :: real]" by simp
  have r: "root (projr (kdTree quickSortIP_spec [0, 0, 1, 0, 0, 1, 5, 5] squaredEuclidean 2)) =
     Node [1, 0] (Node [0, 1] (Node [0, 0] Null Null 2 0) Null 1 1) (Node [5, 5] Null Null 1 3) 0 2"
    by code_simp
  from build_partition_invariant[OF s _ d, of squaredEuclidean]
  have "partition_inv 2 0
     (root (projr (kdTree quickSortIP_spec [0, 0, 1, 0, 0, 1, 5, 5] squaredEuclidean 2)))"
    by auto
  with s d r show ?thesis by simp
qed

text \<open>
  Claim C9, as amended. The buffer is sorted in place, window by window, and a node's
  \<^verbatim>\<open>pos\<close> is the offset of its window plus the median: for every node of the built
  tree, \<^verbatim>\<open>pos\<close> is the position of the node's point in the buffer as the build leaves
  it (the coordinates at offset \<open>pos * e\<close> of the buffer after the build are the
  node's \<^verbatim>\<open>obj\<close>). The tree has one node per point, and the positions are below the
  number of points.
\<close>

theorem node_index_is_position_after_build:
  assumes "sorts_points e quickSortIP" and "0 < e" and "e dvd length points"
  shows "\<exists>self. kdTree quickSortIP points mt e = Inr self \<and>
           length (nodes (root self)) = length points div e \<and>
           (\<forall>n \<in> set (nodes (root self)).
               pos n < length points div e \<and>
               getPointSet e (buffer self) (pos n) = obj n)"
proof -
  from kdTree_built[OF assms, of mt] obtain self ps' where
    self: "kdTree quickSortIP points mt e = Inr self" "buffer self = concat ps'"
    and b: "built e 0 0 (pointsOf e points) (root self) ps'" by blast
  have N: "length (pointsOf e points) = length points div e"
    by (simp add: pointsOf_def)
  have m: "mset ps' = mset (pointsOf e points)" using b by (simp add: built_def)
  from assms(3) obtain k where "length points = k * e" by (metis dvd_def mult.commute)
  from concat_pointsOf[OF assms(2) this] mset_eq_setD[OF m]
  have l: "\<forall>p \<in> set ps'. length p = e" by simp
  have len: "length ps' = length points div e"
    using mset_eq_length[OF m] N by simp
  have "length (nodes (root self)) = length points div e"
    using b mset_eq_length[of "map obj (nodes (root self))" "pointsOf e points"] N
    by (simp add: built_def)
  moreover have "pos n < length points div e \<and> getPointSet e (buffer self) (pos n) = obj n"
    if "n \<in> set (nodes (root self))" for n
  proof -
    from b that have "pos n < length points div e" "ps' ! pos n = obj n"
      using N by (auto simp: built_def)
    then show ?thesis
      using getPointSet_concat[OF l, of "pos n"] len self(2) by simp
  qed
  ultimately show ?thesis using self(1) by blast
qed

theorem node_index_is_position_after_build_witness:
  "sorts_points 1 quickSortIP_spec \<and> (1::nat) dvd length [3, 1, 2 :: real] \<and>
   root (projr (kdTree quickSortIP_spec [3, 1, 2] squaredEuclidean 1)) =
     Node [2] (Node [1] Null Null 1 0) (Node [3] Null Null 1 2) 0 1 \<and>
   buffer (projr (kdTree quickSortIP_spec [3, 1, 2] squaredEuclidean 1)) = [1, 2, 3] \<and>
   getPointSet 1 [1, 2, 3] 1 = [2] \<and> getPointSet 1 [1, 2, 3] 0 = [1] \<and>
   getPointSet 1 [1, 2, 3] 2 = [3]"
proof -
  have s: "sorts_points 1 quickSortIP_spec" by (rule quickSortIP_spec_sorts) simp
  have d: "(1::nat) dvd length [3, 1, 2 :: real]" by simp
  have r: "root (projr (kdTree quickSortIP_spec [3, 1, 2] squaredEuclidean 1)) =
     Node [2] (Node [1] Null Null 1 0) (Node [3] Null Null 1 2) 0 1"
    by code_simp
  have b: "buffer (projr (kdTree quickSortIP_spec [3, 1, 2] squaredEuclidean 1)) = [1, 2, 3]"
    by code_simp
  from node_index_is_position_after_build[OF s _ d, of squaredEuclidean]
  have "\<forall>n \<in> set (nodes (root (projr (kdTree quickSortIP_spec [3, 1, 2] squaredEuclidean 1)))).
          getPointSet 1 (buffer (projr (kdTree quickSortIP_spec [3, 1, 2] squaredEuclidean 1)))
            (pos n) = obj n"
    by auto
  then show ?thesis unfolding r b using s d by simp
qed

text \<open>
  Claim C9 as stated fails: for the buffer \<open>[3, 1, 2]\<close> of one-coordinate points the
  root holds the point \<open>[2]\<close> with \<^verbatim>\<open>pos\<close> 1, and position 1 of the buffer before the
  build is the point \<open>[1]\<close>.
\<close>

theorem node_index_original_order_counterexample:
  "root (projr (kdTree quickSortIP_spec [3, 1, 2] squaredEuclidean 1)) =
     Node [2] (Node [1] Null Null 1 0) (Node [3] Null Null 1 2) 0 1 \<and>
   pos (root (projr (kdTree quickSortIP_spec [3, 1, 2] squaredEuclidean 1))) = 1 \<and>
   obj (root (projr (kdTree quickSortIP_spec [3, 1, 2] squaredEuclidean 1))) = [2] \<and>
   getPointSet 1 [3, 1, 2] 1 = [1] \<and>
   getPointSet 1 [3, 1, 2]
      (pos (root (projr (kdTree quickSortIP_spec [3, 1, 2] squaredEuclidean 1)))) \<noteq>
   obj (root (projr (kdTree quickSortIP_spec [3, 1, 2] squaredEuclidean 1)))"
  by code_simp

subsection \<open>Buffers of any length\<close>

text \<open>
  Claim C5, as amended. The constructor checks nothing: for a buffer whose length is
  not a multiple of \<open>e\<close> (\<open>e \<ge> 1\<close>), with any sorter, it does not fail with
  \<open>InvalidInput\<close>; it makes nodes and returns a tree, and the tree has a root.
\<close>

theorem build_accepts_any_length:
  assumes "0 < e" and "\<not> e dvd length points"
  shows "kdTree quickSortIP points mt e \<noteq> Inl InvalidInput \<and>
         (\<exists>self. kdTree quickSortIP points mt e = Inr self \<and> root self \<noteq> Null)"
proof -
  have "length points \<noteq> 0" "length points \<noteq> e" using assms by auto
  from buildTree_Node[OF assms(1) this, of quickSortIP 0 0
      "\<lparr>maxDepth = 0, amountOfLeafDepthNodes = 0\<rparr>"]
  show ?thesis using assms(1) by (auto simp: kdTree_def)
qed

theorem build_accepts_any_length_witness:
  "(0::nat) < 2 \<and> \<not> (2::nat) dvd length [1, 2, 3 :: real] \<and>
   \<not> isl (kdTree quickSortIP_spec [1, 2, 3] squaredEuclidean 2) \<and>
   root (projr (kdTree quickSortIP_spec [1, 2, 3] squaredEuclidean 2)) =
     Node [1, 2] Null (Node [3] Null Null 1 1) 0 0"
proof -
  have d: "\<not> (2::nat) dvd length [1, 2, 3 :: real]" by simp
  have r: "root (projr (kdTree quickSortIP_spec [1, 2, 3] squaredEuclidean 2)) =
     Node [1, 2] Null (Node [3] Null Null 1 1) 0 0" by code_simp
  from build_accepts_any_length[OF _ d, of quickSortIP_spec squaredEuclidean]
  have "\<not> isl (kdTree quickSortIP_spec [1, 2, 3] squaredEuclidean 2)" by auto
  with d r show ?thesis by simp
qed

text \<open>
  Claim C5 as stated fails: the buffer \<open>[1, 2, 3]\<close> with two coordinates per point is
  not rejected; the build returns a tree whose second node holds the cut point \<open>[3]\<close>.
\<close>

theorem build_rejects_bad_length_counterexample:
  "\<not> (2::nat) dvd length [1, 2, 3 :: real] \<and>
   kdTree quickSortIP_spec [1, 2, 3] squaredEuclidean 2 \<noteq> Inl InvalidInput \<and>
   \<not> isl (kdTree quickSortIP_spec [1, 2, 3] squaredEuclidean 2) \<and>
   root (projr (kdTree quickSortIP_spec [1, 2, 3] squaredEuclidean 2)) =
     Node [1, 2] Null (Node [3] Null Null 1 1) 0 0 \<and>
   buffer (projr (kdTree quickSortIP_spec [1, 2, 3] squaredEuclidean 2)) = [1, 2, 3]"
proof -
  have "\<not> isl (kdTree quickSortIP_spec [1, 2, 3] squaredEuclidean 2) \<and>
   root (projr (kdTree quickSortIP_spec [1, 2, 3] squaredEuclidean 2)) =
     Node [1, 2] Null (Node [3] Null Null 1 1) 0 0 \<and>
   buffer (projr (kdTree quickSortIP_spec [1, 2, 3] squaredEuclidean 2)) = [1, 2, 3]"
    by code_simp
  then show ?thesis by auto
qed

section \<open>The claims about the search\<close>

lemma nearest_empty_tree:
  "root self = Null \<Longrightarrow> nearest self q k maxDistance = Inl TypeError"
  by (simp add: nearest_def Let_def)

text \<open>
  Claim C4 fails on the code: the tree built from the empty buffer has no root, and
  \<^verbatim>\<open>nearest\<close> on it ends with a TypeError (\<^verbatim>\<open>nearestSearch(null)\<close> reads \<^verbatim>\<open>node.depth\<close>),
  with and without \<^verbatim>\<open>maxDistance\<close>.
\<close>

theorem nearest_on_empty_tree_throws:
  "root (projr (kdTree quickSortIP_spec [] squaredEuclidean 2)) = Null \<and>
   nearest (projr (kdTree quickSortIP_spec [] squaredEuclidean 2)) [0, 0] 1 None = Inl TypeError \<and>
   nearest (projr (kdTree quickSortIP_spec [] squaredEuclidean 2)) [0, 0] 1 (Some 1) = Inl TypeError"
  by code_simp


lemma nearestSearch_no_room:
  "k < 1 \<Longrightarrow> nearestSearch mt e q k t [] = Inl TypeError"
proof (induction t)
  case Null
  then show ?case by simp
next
  case (Node ob l r d p0)
  show ?case
  proof (cases "r = Null \<and> l = Null")
    case True
    with Node.prems show ?thesis
      by (simp add: Let_def saveIfBetter_def room_or_nearer_def size_heap_def peek_def)
  next
    case False
    from nearestSearch_inner[OF False, of q d e ob mt k p0] Node.IH Node.prems
    show ?thesis by auto
  qed
qed

lemma seed_nothing: "k < 1 \<Longrightarrow> seed k d 0 [] = []"
  by (subst seed.simps) simp

text \<open>
  Claim C6, as amended. No input check precedes the traversal. For every \<open>k < 1\<close> the
  heap starts empty (the seeding loop does not run), and the call ends with the
  TypeError that \<^verbatim>\<open>nearestSearch\<close> raises: on the absent root, or at the first leaf
  it reaches, where \<^verbatim>\<open>peek()\<close> of the empty heap is \<^verbatim>\<open>undefined\<close>.
\<close>

theorem nearest_nonpositive_k_throws:
  assumes "k < 1"
  shows "nearest self q k maxDistance = Inl TypeError"
  using assms
  by (cases maxDistance) (simp_all add: nearest_def Let_def seed_nothing nearestSearch_no_room)

theorem nearest_nonpositive_k_throws_witness:
  "(0::int) < 1 \<and>
   nearest (projr (kdTree quickSortIP_spec [5] squaredEuclidean 1)) [0] 0 None = Inl TypeError \<and>
   nearest (projr (kdTree quickSortIP_spec [5] squaredEuclidean 1)) [0] 0 (Some 30) = Inl TypeError"
  using nearest_nonpositive_k_throws[of 0 "projr (kdTree quickSortIP_spec [5] squaredEuclidean 1)"
      "[0]"]
  by simp

text \<open>
  Claim C6 as stated fails: with \<open>k = 0\<close> on a tree of one point the error is the
  TypeError of the traversal (\<^verbatim>\<open>nearestSearch\<close> on the root returns it), not
  \<open>InvalidInput\<close>.
\<close>

theorem nearest_invalid_input_counterexample:
  "root (projr (kdTree quickSortIP_spec [5] squaredEuclidean 1)) = Node [5] Null Null 0 0 \<and>
   nearestSearch squaredEuclidean 1 [0] 0 (Node [5] Null Null 0 0) [] = Inl TypeError \<and>
   nearest (projr (kdTree quickSortIP_spec [5] squaredEuclidean 1)) [0] 0 None = Inl TypeError \<and>
   nearest (projr (kdTree quickSortIP_spec [5] squaredEuclidean 1)) [0] 0 None \<noteq> Inl InvalidInput"
  by code_simp

lemma saveIfBetter_radius:
  assumes "k \<le> int (length h)" and "\<forall>x \<in> set h. snd x \<le> dm"
    and "saveIfBetter k n x h = Inr h'"
  shows "length h' = length h \<and> (\<forall>x \<in> set h'. snd x \<le> dm)"
proof (cases "h = []")
  case True
  with assms show ?thesis
    by (auto simp: saveIfBetter_def room_or_nearer_def size_heap_def peek_def split: if_splits)
next
  case False
  then have top: "peek h = Some (h ! 0)" "h ! 0 \<in> set h" by (simp_all add: peek_def)
  show ?thesis
  proof (cases "x < snd (h ! 0)")
    case False
    with assms top show ?thesis
      by (auto simp: saveIfBetter_def room_or_nearer_def size_heap_def)
  next
    case True
    then have h': "h' = snd (pop score (push score (n, x) h))"
      using assms top
      by (auto simp: saveIfBetter_def room_or_nearer_def size_heap_def saveNode_def Let_def
          push_length)
    have "x \<le> dm" using True top(2) assms(2) by fastforce
    moreover have "set h' \<subseteq> insert (n, x) (set h)"
      unfolding h' using pop_set[of score "push score (n, x) h"] by (simp add: push_set)
    ultimately show ?thesis
      using assms(2) by (auto simp: h' pop_length push_length)
  qed
qed

lemma nearestSearch_radius:
  "k \<le> int (length h) \<Longrightarrow> \<forall>x \<in> set h. snd x \<le> dm \<Longrightarrow>
   nearestSearch mt e q k t h = Inr h' \<Longrightarrow>
   length h' = length h \<and> (\<forall>x \<in> set h'. snd x \<le> dm)"
proof (induction t arbitrary: h h')
  case Null
  then show ?case by simp
next
  case (Node ob l r d p0)
  let ?node = "Node ob l r d p0"
  show ?case
  proof (cases "r = Null \<and> l = Null")
    case True
    with Node.prems saveIfBetter_radius[of k h dm ?node "mt q ob" h'] show ?thesis
      by (simp add: Let_def)
  next
    case False
    from nearestSearch_inner[OF False, of q d e ob mt k p0]
    obtain near far where
      sides: "(near = l \<and> far = r) \<or> (near = r \<and> far = l)"
      and unfold: "\<And>h. nearestSearch mt e q k ?node h =
        (case nearestSearch mt e q k near h of
           Inl er \<Rightarrow> Inl er
         | Inr h1 \<Rightarrow>
            (case saveIfBetter k ?node (mt q ob) h1 of
               Inl er \<Rightarrow> Inl er
             | Inr h2 \<Rightarrow>
                (case room_or_nearer k \<bar>mt (linearPoint e q ob d) ob\<bar> h2 of
                   Inl er \<Rightarrow> Inl er
                 | Inr explore \<Rightarrow>
                     if explore \<and> far \<noteq> Null then nearestSearch mt e q k far h2
                     else Inr h2)))"
      by blast
    have IH: "length b = length a \<and> (\<forall>x \<in> set b. snd x \<le> dm)"
      if "k \<le> int (length a)" "\<forall>x \<in> set a. snd x \<le> dm"
        "nearestSearch mt e q k c a = Inr b" "c = near \<or> c = far" for a b c
      using sides Node.IH that by blast
    from Node.prems(3) obtain h1 h2 where
      h1: "nearestSearch mt e q k near h = Inr h1" and
      h2: "saveIfBetter k ?node (mt q ob) h1 = Inr h2" and
      h3: "nearestSearch mt e q k far h2 = Inr h' \<or> h' = h2"
      unfolding unfold[of h] by (auto split: sum.splits if_splits)
    from IH[OF Node.prems(1,2) h1] have 1: "length h1 = length h" "\<forall>x \<in> set h1. snd x \<le> dm"
      by simp_all
    from saveIfBetter_radius[OF _ 1(2) h2] 1(1) Node.prems(1)
    have 2: "length h2 = length h" "\<forall>x \<in> set h2. snd x \<le> dm" by simp_all
    from h3 show ?thesis
    proof
      assume "h' = h2"
      with 2 show ?thesis by simp
    next
      assume "nearestSearch mt e q k far h2 = Inr h'"
      from IH[OF _ 2(2) this] 2(1) Node.prems(1) show ?thesis by simp
    qed
  qed
qed

lemma seed_props:
  "length (seed k d i h) = length h + (nat k - i) \<and>
   set (seed k d i h) \<subseteq> insert (Null, d) (set h)"
proof (induction k d i h rule: seed.induct)
  case (1 k d i h)
  show ?case
  proof (cases "int i < k")
    case True
    with "1.IH"[OF True] show ?thesis
      by (subst (1 2) seed.simps) (auto simp: push_length push_set)
  next
    case False
    then show ?thesis by (subst (1 2) seed.simps) auto
  qed
qed

lemma nearest_Some:
  "d \<noteq> 0 \<Longrightarrow> nearest self q k (Some d) =
     (case nearestSearch (metric self) (eleSize self) q k (root self) (seed k d 0 []) of
        Inl er \<Rightarrow> Inl er
      | Inr h \<Rightarrow> collect k h 0 [])"
  by (simp add: nearest_def)

text \<open>
  Claim C7, as amended. For a \<^verbatim>\<open>maxDistance\<close> \<open>d\<close> other than 0, every pair of a returned
  result has a distance of at most \<open>d\<close>; and the call does return a result when \<open>k \<ge> 1\<close>
  and the tree has a root.
\<close>

theorem nearest_within_nonzero_radius:
  assumes "d \<noteq> 0"
  shows "(\<forall>res. nearest self q k (Some d) = Inr res \<longrightarrow> (\<forall>x \<in> set res. snd x \<le> d)) \<and>
         (1 \<le> k \<and> root self \<noteq> Null \<longrightarrow> (\<exists>res. nearest self q k (Some d) = Inr res))"
proof (intro conjI allI impI)
  fix res assume res: "nearest self q k (Some d) = Inr res"
  let ?s = "seed k d 0 []"
  from res obtain h where h: "nearestSearch (metric self) (eleSize self) q k (root self) ?s = Inr h"
    and c: "collect k h 0 [] = Inr res"
    unfolding nearest_Some[OF assms] by (auto split: sum.splits)
  have "k \<le> int (length ?s)" "\<forall>x \<in> set ?s. snd x \<le> d"
    using seed_props[of k d 0 "[]"] by auto
  from nearestSearch_radius[OF this h] have "\<forall>x \<in> set h. snd x \<le> d" by simp
  moreover have "set res \<subseteq> set h"
    using c unfolding collect_eq by (auto split: if_splits dest: in_set_takeD)
  ultimately show "\<forall>x \<in> set res. snd x \<le> d" by blast
next
  assume a: "1 \<le> k \<and> root self \<noteq> Null"
  let ?s = "seed k d 0 []"
  have s: "int (length ?s) = k" using seed_props[of k d 0 "[]"] a by simp
  from nearestSearch_length[of k "root self" ?s "metric self" "eleSize self" q] a s
  obtain h where h: "nearestSearch (metric self) (eleSize self) q k (root self) ?s = Inr h"
    "int (length h) = k" by auto
  moreover have "nat k \<le> length h" using h(2) by linarith
  ultimately show "\<exists>res. nearest self q k (Some d) = Inr res"
    unfolding nearest_Some[OF assms] collect_eq by simp
qed

theorem nearest_within_nonzero_radius_witness:
  "(1::real) \<noteq> 0 \<and>
   nearest (projr (kdTree quickSortIP_spec [0, 0, 1, 0, 0, 1, 5, 5] squaredEuclidean 2))
      [5, 5] 1 (Some 1) = Inr [(Node [5, 5] Null Null 1 3, 0)] \<and>
   snd (Node [5, 5] Null Null 1 3, 0::real) \<le> 1"
proof -
  have d: "(1::real) \<noteq> 0" by simp
  have r: "nearest (projr (kdTree quickSortIP_spec [0, 0, 1, 0, 0, 1, 5, 5] squaredEuclidean 2))
      [5, 5] 1 (Some 1) = Inr [(Node [5, 5] Null Null 1 3, 0)]"
    by code_simp
  have m: "(Node [5, 5] Null Null 1 3, 0::real) \<in> set [(Node [5, 5] Null Null 1 3, 0)]"
    by simp
  from nearest_within_nonzero_radius[OF d, THEN conjunct1, rule_format, OF r m] d r
  show ?thesis by blast
qed

text \<open>
  Claim C7 as stated fails for \<open>d = 0\<close>: the point at distance 25 is returned.
\<close>

theorem nearest_zero_radius_counterexample:
  "nearest (projr (kdTree quickSortIP_spec [5] squaredEuclidean 1)) [0] 1 (Some 0) =
     Inr [(Node [5] Null Null 0 0, 25)] \<and> \<not> (25::real) \<le> 0"
  by code_simp


lemma kdTree_node_count:
  assumes "sorts_points e srt" and "0 < e" and "e dvd length points"
  shows "\<exists>self. kdTree srt points mt e = Inr self \<and> metric self = mt \<and> eleSize self = e \<and>
           length (nodes (root self)) = length points div e \<and>
           (points \<noteq> [] \<longrightarrow> root self \<noteq> Null)"
proof -
  from kdTree_built[OF assms, of mt] obtain self ps' where
    self: "kdTree srt points mt e = Inr self" "metric self = mt" "eleSize self = e"
    and b: "built e 0 0 (pointsOf e points) (root self) ps'" by blast
  have n: "length (nodes (root self)) = length points div e"
    using b mset_eq_length[of "map obj (nodes (root self))" "pointsOf e points"]
    by (simp add: built_def pointsOf_def)
  have "root self \<noteq> Null" if "points \<noteq> []"
  proof -
    from that assms(2,3) have "0 < length points div e"
      by (simp add: dvd_imp_le div_greater_zero_iff)
    with n show ?thesis by auto
  qed
  with self n show ?thesis by blast
qed

text \<open>
  Claim C2 fails on the code when \<open>k\<close> exceeds the number of points: the heap then
  holds fewer than \<open>k\<close> entries, and the loop of lines 162-166 reads \<^verbatim>\<open>content[i][0]\<close>
  past its end. For every non-empty buffer of whole points and every \<open>k\<close> above the
  number of points, \<^verbatim>\<open>nearest\<close> without \<^verbatim>\<open>maxDistance\<close> ends with a TypeError.
\<close>

theorem nearest_beyond_point_count_throws:
  assumes "sorts_points e quickSortIP" and "0 < e" and "e dvd length points"
    and "points \<noteq> []" and "int (length points div e) < k"
  shows "\<exists>self. kdTree quickSortIP points mt e = Inr self \<and>
           nearest self q k None = Inl TypeError"
proof -
  from kdTree_node_count[OF assms(1-3), of mt] assms(4) obtain self where
    self: "kdTree quickSortIP points mt e = Inr self"
      "length (nodes (root self)) = length points div e" "root self \<noteq> Null" by blast
  have "1 \<le> k" using assms(5) by linarith
  from nearest_no_radius[OF this self(3), of q] assms(5) self show ?thesis by auto
qed

theorem nearest_beyond_point_count_throws_witness:
  "sorts_points 1 quickSortIP_spec \<and> (1::nat) dvd length [0::real] \<and>
   int (length [0::real] div 1) < 2 \<and>
   nearest (projr (kdTree quickSortIP_spec [0] squaredEuclidean 1)) [0] 2 None = Inl TypeError"
proof -
  have s: "sorts_points 1 quickSortIP_spec" by (rule quickSortIP_spec_sorts) simp
  from nearest_beyond_point_count_throws[OF s, of "[0]" 2 squaredEuclidean "[0]"]
  have "nearest (projr (kdTree quickSortIP_spec [0] squaredEuclidean 1)) [0] 2 None =
      Inl TypeError" by auto
  with s show ?thesis by simp
qed

text \<open>
  The rest of claim C2 holds: for \<open>1 \<le> k\<close> up to the number of points, \<^verbatim>\<open>nearest\<close>
  without \<^verbatim>\<open>maxDistance\<close> returns exactly \<open>min k N\<close> results.
\<close>

theorem nearest_returns_k_results:
  assumes "sorts_points e quickSortIP" and "0 < e" and "e dvd length points"
    and "1 \<le> k" and "k \<le> int (length points div e)"
  shows "\<exists>self res. kdTree quickSortIP points mt e = Inr self \<and>
           nearest self q k None = Inr res \<and>
           int (length res) = min k (int (length points div e))"
proof -
  have "points \<noteq> []" using assms(4,5) by auto
  with kdTree_node_count[OF assms(1-3), of mt] obtain self where
    self: "kdTree quickSortIP points mt e = Inr self"
      "length (nodes (root self)) = length points div e" "root self \<noteq> Null" by blast
  from nearest_no_radius[OF assms(4) self(3), of q] assms(5) self show ?thesis by auto
qed

theorem nearest_returns_k_results_witness:
  "sorts_points 2 quickSortIP_spec \<and> (2::nat) dvd length [0, 0, 1, 0, 0, 1, 5, 5 :: real] \<and>
   (2::int) \<le> int (length [0, 0, 1, 0, 0, 1, 5, 5 :: real] div 2) \<and>
   nearest (projr (kdTree quickSortIP_spec [0, 0, 1, 0, 0, 1, 5, 5] squaredEuclidean 2))
      [0, 0] 2 None =
     Inr [(Node [0, 1] (Node [0, 0] Null Null 2 0) Null 1 1, 1), (Node [0, 0] Null Null 2 0, 0)] \<and>
   int (length [(Node [0, 1] (Node [0, 0] Null Null 2 0) Null 1 1, 1::real),
                (Node [0, 0] Null Null 2 0, 0)]) = min 2 (int (length [0, 0, 1, 0, 0, 1, 5, 5 :: real] div 2))"
proof -
  have s: "sorts_points 2 quickSortIP_spec" by (rule quickSortIP_spec_sorts) simp
  have r: "nearest (projr (kdTree quickSortIP_spec [0, 0, 1, 0, 0, 1, 5, 5] squaredEuclidean 2))
      [0, 0] 2 None =
     Inr [(Node [0, 1] (Node [0, 0] Null Null 2 0) Null 1 1, 1), (Node [0, 0] Null Null 2 0, 0)]"
    by code_simp
  from nearest_returns_k_results[OF s, of "[0, 0, 1, 0, 0, 1, 5, 5]" 2 squaredEuclidean "[0, 0]"]
  have "int (length [(Node [0, 1] (Node [0, 0] Null Null 2 0) Null 1 1, 1::real),
                (Node [0, 0] Null Null 2 0, 0)]) =
        min 2 (int (length [0, 0, 1, 0, 0, 1, 5, 5 :: real] div 2))"
    by (auto simp: r)
  with s r show ?thesis by simp
qed

section \<open>The search returns the k nearest\<close>

lemma squaredEuclidean_nonneg: "0 \<le> squaredEuclidean a b"
  unfolding squaredEuclidean_def by (rule sum_list_nonneg) auto

lemma squaredEuclidean_Cons:
  "squaredEuclidean (x # xs) (y # ys) = (x - y)\<^sup>2 + squaredEuclidean xs ys"
  by (simp add: squaredEuclidean_def)

lemma squaredEuclidean_same: "squaredEuclidean xs xs = 0"
  by (induction xs) (simp_all add: squaredEuclidean_Cons, simp add: squaredEuclidean_def)

lemma squaredEuclidean_update:
  "a < length ob \<Longrightarrow> squaredEuclidean (ob[a := v]) ob = (v - ob ! a)\<^sup>2"
proof (induction ob arbitrary: a)
  case Nil
  then show ?case by simp
next
  case (Cons x xs)
  then show ?case
    by (cases a) (simp_all add: squaredEuclidean_Cons squaredEuclidean_same)
qed

lemma squaredEuclidean_axis:
  "a < length q \<Longrightarrow> a < length p \<Longrightarrow> (q ! a - p ! a)\<^sup>2 \<le> squaredEuclidean q p"
proof (induction q arbitrary: p a)
  case Nil
  then show ?case by simp
next
  case (Cons x xs)
  then obtain y ys where p: "p = y # ys" by (cases p) auto
  show ?case
  proof (cases a)
    case 0
    then show ?thesis
      using squaredEuclidean_nonneg[of xs ys] by (simp add: p squaredEuclidean_Cons)
  next
    case (Suc a')
    with Cons.IH[of a' ys] Cons.prems show ?thesis
      by (simp add: p squaredEuclidean_Cons add_increasing)
  qed
qed

lemma squaredEuclidean_axis_monotone: "axis_monotone e squaredEuclidean"
  unfolding axis_monotone_def
proof (intro allI impI)
  fix q ob p :: point and a
  assume a: "a < e" and l: "length q = e" "length ob = e" "length p = e"
    and side: "q ! a \<le> ob ! a \<and> ob ! a \<le> p ! a \<or> p ! a \<le> ob ! a \<and> ob ! a \<le> q ! a"
  have "squaredEuclidean (ob[a := q ! a]) ob = (q ! a - ob ! a)\<^sup>2"
    using a l by (simp add: squaredEuclidean_update)
  also have "\<dots> \<le> (q ! a - p ! a)\<^sup>2"
  proof -
    have "\<bar>q ! a - ob ! a\<bar> \<le> \<bar>q ! a - p ! a\<bar>" using side by auto
    then show ?thesis by (simp only: abs_le_square_iff)
  qed
  also have "\<dots> \<le> squaredEuclidean q p"
    using a l by (simp add: squaredEuclidean_axis)
  finally show "squaredEuclidean (ob[a := q ! a]) ob \<le> squaredEuclidean q p" .
qed

lemma linearPoint_update:
  assumes "length ob = e"
  shows "linearPoint e q ob d = ob[d mod e := q ! (d mod e)]"
  using assms by (auto simp: linearPoint_def list_eq_iff_nth_eq)

lemma smallest_unique:
  fixes A R :: "real multiset"
  assumes "\<forall>x \<in># A. \<forall>y \<in># R. x \<le> y" and "size A \<le> k" and "size A < k \<longrightarrow> R = {#}"
  shows "mset (take k (sorted_list_of_multiset (A + R))) = A"
proof -
  define xs where "xs = sorted_list_of_multiset A"
  define ys where "ys = sorted_list_of_multiset R"
  have m: "mset xs = A" "mset ys = R" by (simp_all add: xs_def ys_def)
  have "sorted (xs @ ys)"
    using assms(1) by (auto simp: sorted_append xs_def ys_def)
  then have "sort (xs @ ys) = xs @ ys" by (rule sorted_sort_id)
  moreover have "sorted_list_of_multiset (A + R) = sort (xs @ ys)"
    using sorted_list_of_multiset_mset[of "xs @ ys"] m by simp
  ultimately have s: "sorted_list_of_multiset (A + R) = xs @ ys" by simp
  have lx: "length xs = size A" using m(1) by (metis size_mset)
  have "take k (xs @ ys) = xs"
  proof (cases "size A < k")
    case True
    with assms(3) m(2) have "ys = []" by simp
    with True lx show ?thesis by simp
  next
    case False
    with assms(2) lx show ?thesis by simp
  qed
  with s m(1) show ?thesis by simp
qed

lemma score_root:
  assumes "heap_property score h" and "x \<in> set h"
  shows "snd x \<le> snd (h ! 0)"
  using heap_property_root[OF assms] by (simp add: score_def)

lemma saveIfBetter_best:
  assumes k: "1 \<le> k" and b: "best k h rej"
  shows "\<exists>h' rej'. saveIfBetter k n x h = Inr h' \<and> best k h' rej' \<and>
           mset h' + rej' = mset h + rej + {#(n, x)#}"
proof (cases "int (length h) < k")
  case True
  then have rej: "rej = {#}" using b by (simp add: best_def)
  have "saveIfBetter k n x h = Inr (push score (n, x) h)"
    using True
    by (simp add: saveIfBetter_def room_or_nearer_def size_heap_def saveNode_def Let_def
        push_length)
  moreover have "best k (push score (n, x) h) {#}"
    using True b by (simp add: best_def push_heap_property push_length)
  moreover have "mset (push score (n, x) h) + {#} = mset h + rej + {#(n, x)#}"
    by (simp add: push_mset rej)
  ultimately show ?thesis by blast
next
  case False
  with b have len: "int (length h) = k" by (simp add: best_def)
  with k have ne: "h \<noteq> []" by auto
  have hp: "heap_property score h" using b by (simp add: best_def)
  have top: "\<forall>y \<in> set h. snd y \<le> snd (h ! 0)" using score_root[OF hp] by blast
  have low: "\<forall>a \<in> set h. \<forall>y \<in># rej. snd a \<le> snd y" using b by (simp add: best_def)
  have room: "room_or_nearer k x h = Inr (x < snd (h ! 0))"
    using False ne by (simp add: room_or_nearer_def size_heap_def peek_def)
  show ?thesis
  proof (cases "x < snd (h ! 0)")
    case less: True
    define h1 where "h1 = push score (n, x) h"
    define h' where "h' = snd (pop score h1)"
    have h1: "mset h1 = mset h + {#(n, x)#}" "length h1 = Suc (length h)"
      "heap_property score h1" "set h1 = insert (n, x) (set h)"
      by (simp_all add: h1_def push_mset push_length push_heap_property hp push_set)
    then have ne1: "h1 \<noteq> []" by auto
    have res: "saveIfBetter k n x h = Inr h'"
      using room less len by (simp add: saveIfBetter_def saveNode_def Let_def size_heap_def
          h1_def[symmetric] h1(2) h'_def)
    have ms: "mset h' + {#h1 ! 0#} = mset h1"
      unfolding h'_def by (rule pop_mset[OF ne1])
    have sub: "set h' \<subseteq> set h1" unfolding h'_def by (rule pop_set)
    have "best k h' (rej + {#h1 ! 0#})"
      unfolding best_def
    proof (intro conjI ballI impI)
      show "heap_property score h'"
        unfolding h'_def by (rule pop_heap_property[OF h1(3)])
      show "int (length h') \<le> k"
        using len h1(2) by (simp add: h'_def pop_length)
    next
      fix a y assume a: "a \<in> set h'" and y: "y \<in># rej + {#h1 ! 0#}"
      from a sub have a1: "a \<in> set h1" by blast
      from y consider "y \<in># rej" | "y = h1 ! 0" by auto
      then show "snd a \<le> snd y"
      proof cases
        case 1
        have "h ! 0 \<in> set h" using ne by simp
        with low 1 have "snd (h ! 0) \<le> snd y" by blast
        with a1 h1(4) low 1 less show ?thesis by fastforce
      next
        case 2
        with score_root[OF h1(3) a1] show ?thesis by simp
      qed
    next
      assume "int (length h') < k"
      then show "rej + {#h1 ! 0#} = {#}"
        using len h1(2) by (simp add: h'_def pop_length)
    qed
    moreover have "mset h' + (rej + {#h1 ! 0#}) = mset h + rej + {#(n, x)#}"
      using ms h1(1) by (simp add: ac_simps)
    ultimately show ?thesis using res by blast
  next
    case geq: False
    have "saveIfBetter k n x h = Inr h"
      using room geq by (simp add: saveIfBetter_def)
    moreover have "best k h (rej + {#(n, x)#})"
      using b top geq len by (fastforce simp: best_def)
    ultimately show ?thesis by (intro exI[of _ h] exI[of _ "rej + {#(n, x)#}"]) simp
  qed
qed

lemma room_or_nearer_False_top:
  "room_or_nearer k x h = Inr False \<Longrightarrow> h \<noteq> [] \<and> \<not> x < snd (h ! 0)"
  by (auto simp: room_or_nearer_def size_heap_def peek_def split: if_splits)

lemma entries_Node:
  "mset (entries mt q (Node ob l r d p0)) =
     {#(Node ob l r d p0, mt q ob)#} + mset (entries mt q l) + mset (entries mt q r)"
  by (simp add: entries_def)

lemma nearestSearch_best:
  assumes k: "1 \<le> k" and nn: "nonnegative mt" and am: "axis_monotone e mt"
    and e: "0 < e" and q: "length q = e"
  shows "t \<noteq> Null \<Longrightarrow> partition_inv e d t \<Longrightarrow> \<forall>n \<in> set (nodes t). length (obj n) = e \<Longrightarrow>
     best k h rej \<Longrightarrow>
     \<exists>h' rej'. nearestSearch mt e q k t h = Inr h' \<and> best k h' rej' \<and>
        mset h' + rej' = mset h + rej + mset (entries mt q t)"
proof (induction t arbitrary: h rej d)
  case Null
  then show ?case by simp
next
  case (Node ob l r dep p0)
  let ?node = "Node ob l r dep p0"
  define a where "a = dep mod e"
  have al: "a < e" using e by (simp add: a_def)
  have obl: "length ob = e" using Node.prems(3) by simp
  have pl: "partition_inv e (d + 1) l" and pr: "partition_inv e (d + 1) r"
    and lefts: "\<forall>n \<in> set (nodes l). obj n ! a \<le> ob ! a"
    and rights: "\<forall>n \<in> set (nodes r). ob ! a \<le> obj n ! a"
    using Node.prems(2) by (auto simp: a_def)
  have ll: "\<forall>n \<in> set (nodes l). length (obj n) = e"
    and lr: "\<forall>n \<in> set (nodes r). length (obj n) = e"
    using Node.prems(3) by simp_all
  show ?case
  proof (cases "r = Null \<and> l = Null")
    case True
    from saveIfBetter_best[OF k Node.prems(4), of ?node "mt q ob"] True show ?thesis
      by (simp add: Let_def entries_def)
  next
    case False
    from nearestSearch_inner[OF False, of q dep e ob mt k p0]
    obtain near far where near: "near \<noteq> Null"
      and sides: "(near = l \<and> far = r \<and> (r \<noteq> Null \<longrightarrow> q ! a < ob ! a)) \<or>
                  (near = r \<and> far = l \<and> (l \<noteq> Null \<longrightarrow> \<not> q ! a < ob ! a))"
      and unfold: "\<And>h. nearestSearch mt e q k ?node h =
        (case nearestSearch mt e q k near h of
           Inl er \<Rightarrow> Inl er
         | Inr h1 \<Rightarrow>
            (case saveIfBetter k ?node (mt q ob) h1 of
               Inl er \<Rightarrow> Inl er
             | Inr h2 \<Rightarrow>
                (case room_or_nearer k \<bar>mt (linearPoint e q ob dep) ob\<bar> h2 of
                   Inl er \<Rightarrow> Inl er
                 | Inr explore \<Rightarrow>
                     if explore \<and> far \<noteq> Null then nearestSearch mt e q k far h2
                     else Inr h2)))"
      unfolding a_def by blast
    have IH: "\<exists>h' rej'. nearestSearch mt e q k c h = Inr h' \<and> best k h' rej' \<and>
        mset h' + rej' = mset h + rej + mset (entries mt q c)"
      if "c = near \<or> c = far" "c \<noteq> Null" "best k h rej" for c h rej
    proof -
      from that(1) sides have "c = l \<or> c = r" by blast
      then show ?thesis
      proof
        assume "c = l"
        with Node.IH(1)[OF _ pl ll that(3)] that(2) show ?thesis by simp
      next
        assume "c = r"
        with Node.IH(2)[OF _ pr lr that(3)] that(2) show ?thesis by simp
      qed
    qed
    have ent: "mset (entries mt q ?node) =
        {#(?node, mt q ob)#} + mset (entries mt q near) + mset (entries mt q far)"
      using sides by (auto simp: entries_Node)
    have bound: "\<bar>mt (linearPoint e q ob dep) ob\<bar> \<le> snd y" if "y \<in> set (entries mt q far)" for y
    proof -
      from that obtain n where n: "n \<in> set (nodes far)" "y = (n, mt q (obj n))"
        by (auto simp: entries_def)
      then have fn: "far \<noteq> Null" by auto
      have nl: "length (obj n) = e" using n(1) sides ll lr by blast
      have side: "q ! a \<le> ob ! a \<and> ob ! a \<le> obj n ! a \<or>
                  obj n ! a \<le> ob ! a \<and> ob ! a \<le> q ! a"
        using sides fn n(1) lefts rights by force
      have "mt (ob[a := q ! a]) ob \<le> mt q (obj n)"
        using am al q obl nl side unfolding axis_monotone_def by blast
      moreover have "0 \<le> mt (ob[a := q ! a]) ob" using nn by (simp add: nonnegative_def)
      ultimately show ?thesis
        by (simp add: linearPoint_update[OF obl] a_def n(2))
    qed
    from IH[OF _ near Node.prems(4)] obtain h1 rej1 where
      h1: "nearestSearch mt e q k near h = Inr h1" "best k h1 rej1"
        "mset h1 + rej1 = mset h + rej + mset (entries mt q near)" by blast
    from saveIfBetter_best[OF k h1(2), of ?node "mt q ob"] obtain h2 rej2 where
      h2: "saveIfBetter k ?node (mt q ob) h1 = Inr h2" "best k h2 rej2"
        "mset h2 + rej2 = mset h1 + rej1 + {#(?node, mt q ob)#}" by blast
    from room_or_nearer_total[OF k] obtain explore where
      ex: "room_or_nearer k \<bar>mt (linearPoint e q ob dep) ob\<bar> h2 = Inr explore" by blast
    have sum2: "mset h2 + rej2 + mset (entries mt q far) = mset h + rej + mset (entries mt q ?node)"
      unfolding ent using h2(3) h1(3) by (simp add: ac_simps)
    show ?thesis
    proof (cases "explore \<and> far \<noteq> Null")
      case True
      from IH[OF _ _ h2(2), of far] True obtain h3 rej3 where
        h3: "nearestSearch mt e q k far h2 = Inr h3" "best k h3 rej3"
          "mset h3 + rej3 = mset h2 + rej2 + mset (entries mt q far)" by blast
      have "nearestSearch mt e q k ?node h = Inr h3"
        using unfold[of h] h1(1) h2(1) ex h3(1) True by simp
      with h3(2,3) sum2 show ?thesis by auto
    next
      case stop: False
      have res: "nearestSearch mt e q k ?node h = Inr h2"
        using unfold[of h] h1(1) h2(1) ex stop by auto
      have "best k h2 (rej2 + mset (entries mt q far))"
      proof (cases "far = Null")
        case True
        with h2(2) show ?thesis by (simp add: entries_def)
      next
        case False
        with stop ex have exF: "room_or_nearer k \<bar>mt (linearPoint e q ob dep) ob\<bar> h2 = Inr False"
          by simp
        from room_or_nearer_False[OF exF] room_or_nearer_False_top[OF exF]
        have full: "\<not> int (length h2) < k" and ne: "h2 \<noteq> []"
          and top: "snd (h2 ! 0) \<le> \<bar>mt (linearPoint e q ob dep) ob\<bar>" by auto
        have hp: "heap_property score h2" using h2(2) by (simp add: best_def)
        have "snd x \<le> snd y" if "x \<in> set h2" "y \<in> set (entries mt q far)" for x y
          using score_root[OF hp that(1)] top bound[OF that(2)] by linarith
        with h2(2) full show ?thesis by (auto simp: best_def)
      qed
      with res sum2 show ?thesis by (auto simp: ac_simps)
    qed
  qed
qed

lemma entries_snd: "map snd (entries mt q t) = map (mt q) (map obj (nodes t))"
  by (simp add: entries_def comp_def)

text \<open>
  The rest of claim C1 holds: for every non-empty buffer of \<open>N\<close> whole points, every
  correct sorter, every non-negative metric that is monotonic per axis, every query
  point of \<open>e\<close> coordinates and every \<open>k\<close> from 1 to \<open>N\<close>, \<^verbatim>\<open>nearest\<close> without
  \<^verbatim>\<open>maxDistance\<close> returns pairs whose distances are, as a multiset, the \<open>k\<close> smallest
  distances of the brute-force scan; every pair is a node of the tree with the metric
  between the query and the node's point, and no node is returned twice.
\<close>

theorem nearest_is_k_nearest:
  assumes "sorts_points e quickSortIP" and "0 < e" and "e dvd length points"
    and "nonnegative mt" and "axis_monotone e mt" and "length q = e"
    and "1 \<le> k" and "k \<le> int (length points div e)"
  shows "\<exists>self res. kdTree quickSortIP points mt e = Inr self \<and>
           nearest self q k None = Inr res \<and>
           mset (map snd res) = mset (bruteForce mt q (nat k) (pointsOf e points)) \<and>
           mset res \<subseteq># mset (entries mt q (root self))"
proof -
  define ps where "ps = pointsOf e points"
  from kdTree_built[OF assms(1-3), of mt] obtain self ps' where
    self: "kdTree quickSortIP points mt e = Inr self" "metric self = mt" "eleSize self = e"
    and b: "built e 0 0 ps (root self) ps'" unfolding ps_def by blast
  let ?t = "root self"
  from assms(3) obtain m where "length points = m * e" by (metis dvd_def mult.commute)
  from concat_pointsOf[OF assms(2) this] have pl: "\<forall>p \<in> set ps. length p = e"
    by (simp add: ps_def)
  have objs: "mset (map obj (nodes ?t)) = mset ps" and pinv: "partition_inv e 0 ?t"
    using b by (simp_all add: built_def)
  have N: "length (nodes ?t) = length points div e"
    using mset_eq_length[OF objs] by (simp add: ps_def pointsOf_def)
  have ol: "\<forall>n \<in> set (nodes ?t). length (obj n) = e"
  proof
    fix n assume "n \<in> set (nodes ?t)"
    then have "obj n \<in> set (map obj (nodes ?t))" by simp
    with mset_eq_setD[OF objs] pl show "length (obj n) = e" by simp
  qed
  have tn: "?t \<noteq> Null" using N assms(7,8) by auto
  have b0: "best k [] {#}" using assms(7) by (simp add: best_def heap_property_def)
  from nearestSearch_best[OF assms(7,4,5,2,6) tn pinv ol b0] obtain h rej where
    h: "nearestSearch mt e q k ?t [] = Inr h" "best k h rej"
      "mset h + rej = mset (entries mt q ?t)" by auto
  have sub: "mset h \<subseteq># mset (entries mt q ?t)"
    using h(3) by (metis mset_subset_eq_add_left)
  have hk: "int (length h) \<le> k" using h(2) by (simp add: best_def)
  have len: "length h = nat k"
  proof (rule ccontr)
    assume "length h \<noteq> nat k"
    with hk have less: "int (length h) < k" by linarith
    with h(2) have "rej = {#}" by (simp add: best_def)
    with h(3) have "length h = length (entries mt q ?t)"
      by (metis add.right_neutral size_mset)
    with less N assms(8) show False by (simp add: entries_def)
  qed
  have real: "filter (\<lambda>x. fst x \<noteq> Null) h = h"
    using set_mset_mono[OF sub] entries_not_Null by (auto simp: filter_id_conv)
  have res: "nearest self q k None = Inr h"
    using h(1) len real by (simp add: nearest_None self collect_eq)
  define A where "A = image_mset snd (mset h)"
  define R where "R = image_mset snd rej"
  have AR: "A + R = mset (map (mt q) ps)"
  proof -
    have "A + R = image_mset snd (mset (entries mt q ?t))"
      unfolding A_def R_def using h(3) by (metis image_mset_union)
    also have "\<dots> = mset (map (mt q) (map obj (nodes ?t)))"
      using entries_snd[of mt q ?t] by (metis mset_map)
    also have "\<dots> = image_mset (mt q) (mset (map obj (nodes ?t)))"
      by (simp only: mset_map)
    also have "\<dots> = mset (map (mt q) ps)" unfolding objs by simp
    finally show ?thesis .
  qed
  have "\<forall>x \<in># A. \<forall>y \<in># R. x \<le> y"
    using h(2) by (auto simp: best_def A_def R_def)
  moreover have "size A \<le> nat k" using len by (simp add: A_def)
  moreover have "size A < nat k \<longrightarrow> R = {#}" using len by (simp add: A_def)
  ultimately have "mset (take (nat k) (sorted_list_of_multiset (A + R))) = A"
    by (rule smallest_unique)
  then have "mset (take (nat k) (sorted_list_of_multiset (mset (map (mt q) ps)))) = A"
    unfolding AR .
  then have "mset (bruteForce mt q (nat k) ps) = mset (map snd h)"
    unfolding bruteForce_def sorted_list_of_multiset_mset by (simp add: A_def)
  with self(1) res sub show ?thesis unfolding ps_def by auto
qed

theorem nearest_is_k_nearest_witness:
  "sorts_points 2 quickSortIP_spec \<and> (2::nat) dvd length [0, 0, 1, 0, 0, 1, 5, 5 :: real] \<and>
   nonnegative squaredEuclidean \<and> axis_monotone 2 squaredEuclidean \<and>
   length [0, 0 :: real] = 2 \<and> (2::int) \<le> int (length [0, 0, 1, 0, 0, 1, 5, 5 :: real] div 2) \<and>
   nearest (projr (kdTree quickSortIP_spec [0, 0, 1, 0, 0, 1, 5, 5] squaredEuclidean 2))
      [0, 0] 2 None =
     Inr [(Node [0, 1] (Node [0, 0] Null Null 2 0) Null 1 1, 1), (Node [0, 0] Null Null 2 0, 0)] \<and>
   bruteForce squaredEuclidean [0, 0] 2 (pointsOf 2 [0, 0, 1, 0, 0, 1, 5, 5]) = [0, 1] \<and>
   mset (map snd [(Node [0, 1] (Node [0, 0] Null Null 2 0) Null 1 1, 1::real),
                  (Node [0, 0] Null Null 2 0, 0)]) =
   mset (bruteForce squaredEuclidean [0, 0] 2 (pointsOf 2 [0, 0, 1, 0, 0, 1, 5, 5]))"
proof -
  have s: "sorts_points 2 quickSortIP_spec" by (rule quickSortIP_spec_sorts) simp
  have n: "nonnegative squaredEuclidean"
    by (simp add: nonnegative_def squaredEuclidean_nonneg)
  have a: "axis_monotone 2 squaredEuclidean" by (rule squaredEuclidean_axis_monotone)
  have r: "nearest (projr (kdTree quickSortIP_spec [0, 0, 1, 0, 0, 1, 5, 5] squaredEuclidean 2))
      [0, 0] 2 None =
     Inr [(Node [0, 1] (Node [0, 0] Null Null 2 0) Null 1 1, 1), (Node [0, 0] Null Null 2 0, 0)]"
    by code_simp
  have b: "bruteForce squaredEuclidean [0, 0] 2 (pointsOf 2 [0, 0, 1, 0, 0, 1, 5, 5]) = [0, 1]"
    by code_simp
  from nearest_is_k_nearest[OF s _ _ n a,
      where points = "[0, 0, 1, 0, 0, 1, 5, 5]" and q = "[0, 0]" and k = 2]
  obtain self res where
    t: "kdTree quickSortIP_spec [0, 0, 1, 0, 0, 1, 5, 5] squaredEuclidean 2 = Inr self" and
    res: "nearest self [0, 0] 2 None = Inr res" and
    m: "mset (map snd res) =
        mset (bruteForce squaredEuclidean [0, 0] 2 (pointsOf 2 [0, 0, 1, 0, 0, 1, 5, 5]))"
    by auto
  from r res have "res = [(Node [0, 1] (Node [0, 0] Null Null 2 0) Null 1 1, 1),
      (Node [0, 0] Null Null 2 0, 0)]"
    unfolding t by simp
  with m have "mset (map snd [(Node [0, 1] (Node [0, 0] Null Null 2 0) Null 1 1, 1::real),
                  (Node [0, 0] Null Null 2 0, 0)]) =
        mset (bruteForce squaredEuclidean [0, 0] 2 (pointsOf 2 [0, 0, 1, 0, 0, 1, 5, 5]))"
    by simp
  with s n a r b show ?thesis by simp
qed

text \<open>
  Claim C1 fails on the code when \<open>k\<close> exceeds the number of points, by the defect of
  claim C2: for the four points \<open>(0,0), (1,0), (0,1), (5,5)\<close> and \<open>k = 5\<close> the brute-force
  scan gives the four distances \<open>0, 1, 1, 50\<close>, and \<^verbatim>\<open>nearest\<close> ends with a TypeError
  (with \<open>k = 4\<close> it returns the four points).
\<close>

theorem nearest_k_nearest_beyond_point_count:
  "bruteForce squaredEuclidean [0, 0] 5 (pointsOf 2 [0, 0, 1, 0, 0, 1, 5, 5]) = [0, 1, 1, 50] \<and>
   nearest (projr (kdTree quickSortIP_spec [0, 0, 1, 0, 0, 1, 5, 5] squaredEuclidean 2))
      [0, 0] 5 None = Inl TypeError \<and>
   map snd (projr (nearest (projr (kdTree quickSortIP_spec [0, 0, 1, 0, 0, 1, 5, 5] squaredEuclidean 2))
      [0, 0] 4 None)) = [50, 1, 1, 0]"
  by code_simp

section \<open>A radius of zero\<close>

lemma saveIfBetter_mset:
  assumes "saveIfBetter k n x h = Inr h'"
  shows "mset h' \<subseteq># mset h + {#(n, x)#}"
proof -
  have push: "mset (push score (n, x) h) = mset h + {#(n, x)#}" by (rule push_mset)
  have "push score (n, x) h \<noteq> []"
    using push_length[of score "(n, x)" h] by auto
  from pop_mset[OF this, of score]
  have pop: "mset (snd (pop score (push score (n, x) h))) \<subseteq># mset h + {#(n, x)#}"
    unfolding push by (metis mset_subset_eq_add_left)
  from assms show ?thesis
    using push pop
    by (auto simp: saveIfBetter_def saveNode_def Let_def split: sum.splits if_splits)
qed

lemma nearestSearch_mset:
  "nearestSearch mt e q k t h = Inr h' \<Longrightarrow> mset h' \<subseteq># mset h + mset (entries mt q t)"
proof (induction t arbitrary: h h')
  case Null
  then show ?case by simp
next
  case (Node ob l r d p0)
  let ?node = "Node ob l r d p0"
  show ?case
  proof (cases "r = Null \<and> l = Null")
    case True
    with Node.prems saveIfBetter_mset[of k ?node "mt q ob" h h'] show ?thesis
      by (simp add: Let_def entries_def)
  next
    case False
    from nearestSearch_inner[OF False, of q d e ob mt k p0]
    obtain near far where
      sides: "(near = l \<and> far = r) \<or> (near = r \<and> far = l)"
      and unfold: "\<And>h. nearestSearch mt e q k ?node h =
        (case nearestSearch mt e q k near h of
           Inl er \<Rightarrow> Inl er
         | Inr h1 \<Rightarrow>
            (case saveIfBetter k ?node (mt q ob) h1 of
               Inl er \<Rightarrow> Inl er
             | Inr h2 \<Rightarrow>
                (case room_or_nearer k \<bar>mt (linearPoint e q ob d) ob\<bar> h2 of
                   Inl er \<Rightarrow> Inl er
                 | Inr explore \<Rightarrow>
                     if explore \<and> far \<noteq> Null then nearestSearch mt e q k far h2
                     else Inr h2)))"
      by blast
    have IH: "mset b \<subseteq># mset a + mset (entries mt q c)"
      if "nearestSearch mt e q k c a = Inr b" "c = near \<or> c = far" for a b c
      using sides Node.IH that by blast
    have ent: "mset (entries mt q ?node) =
        {#(?node, mt q ob)#} + mset (entries mt q near) + mset (entries mt q far)"
      using sides by (auto simp: entries_Node)
    from Node.prems obtain h1 h2 where
      h1: "nearestSearch mt e q k near h = Inr h1" and
      h2: "saveIfBetter k ?node (mt q ob) h1 = Inr h2" and
      h3: "nearestSearch mt e q k far h2 = Inr h' \<or> h' = h2"
      unfolding unfold[of h] by (auto split: sum.splits if_splits)
    have 1: "mset h1 \<subseteq># mset h + mset (entries mt q near)" using IH[OF h1] by simp
    have 2: "mset h2 \<subseteq># mset h1 + {#(?node, mt q ob)#}" by (rule saveIfBetter_mset[OF h2])
    have 12: "mset h2 \<subseteq># mset h + mset (entries mt q near) + {#(?node, mt q ob)#}"
      using 1 2 by (meson subset_mset.add_right_mono subset_mset.order_trans)
    from h3 have "mset h' \<subseteq># mset h2 + mset (entries mt q far)"
    proof
      assume "h' = h2"
      then show ?thesis by simp
    next
      assume "nearestSearch mt e q k far h2 = Inr h'"
      from IH[OF this] show ?thesis by simp
    qed
    also have "\<dots> \<subseteq># mset h + mset (entries mt q near) + {#(?node, mt q ob)#} +
        mset (entries mt q far)"
      using 12 by (rule subset_mset.add_right_mono)
    also have "\<dots> = mset h + mset (entries mt q ?node)"
      unfolding ent by (simp add: ac_simps)
    finally show ?thesis .
  qed
qed

lemma nearest_no_radius_entries:
  assumes k: "1 \<le> k" and t: "root self \<noteq> Null"
    and le: "k \<le> int (length (nodes (root self)))"
  shows "\<exists>res. nearest self q k None = Inr res \<and> int (length res) = k \<and>
           mset res \<subseteq># mset (entries (metric self) q (root self))"
proof -
  from nearestSearch_length[OF k t, of "[]" "metric self" "eleSize self" q]
  obtain h where h: "nearestSearch (metric self) (eleSize self) q k (root self) [] = Inr h"
    "int (length h) = min k (int (length (nodes (root self))))" using k by auto
  from nearestSearch_mset[OF h(1)]
  have sub: "mset h \<subseteq># mset (entries (metric self) q (root self))" by simp
  have real: "filter (\<lambda>x. fst x \<noteq> Null) h = h"
    using set_mset_mono[OF sub] entries_not_Null by (auto simp: filter_id_conv)
  have "length h = nat k" using h(2) le by simp
  then have "nearest self q k None = Inr h"
    using h(1) real by (simp add: nearest_None collect_eq)
  with sub h(2) le show ?thesis by auto
qed

text \<open>
  Claim C10. A \<^verbatim>\<open>maxDistance\<close> of 0 is falsy (line 152): the heap is not seeded, and
  the query gives what the query without \<^verbatim>\<open>maxDistance\<close> gives. No radius cuts the
  result: on a tree with a root, for \<open>k\<close> from 1 to the number of nodes, exactly \<open>k\<close>
  pairs are returned, each a node of the tree with the metric between the query and
  its point, no node twice; and when \<open>k\<close> is the number of nodes, every node is
  returned, whatever its distance.
\<close>

theorem nearest_zero_radius_is_no_radius:
  "nearest self point maxNodes (Some 0) = nearest self point maxNodes None \<and>
   (1 \<le> maxNodes \<and> root self \<noteq> Null \<and> maxNodes \<le> int (length (nodes (root self))) \<longrightarrow>
      (\<exists>res. nearest self point maxNodes (Some 0) = Inr res \<and>
             int (length res) = maxNodes \<and>
             mset res \<subseteq># mset (entries (metric self) point (root self)) \<and>
             (maxNodes = int (length (nodes (root self))) \<longrightarrow>
                mset res = mset (entries (metric self) point (root self)))))"
proof (intro conjI impI)
  show eq: "nearest self point maxNodes (Some 0) = nearest self point maxNodes None"
    by (simp add: nearest_def)
  assume a: "1 \<le> maxNodes \<and> root self \<noteq> Null \<and>
      maxNodes \<le> int (length (nodes (root self)))"
  with nearest_no_radius_entries[of maxNodes self point] obtain res where
    res: "nearest self point maxNodes None = Inr res" "int (length res) = maxNodes"
      "mset res \<subseteq># mset (entries (metric self) point (root self))" by blast
  have "mset res = mset (entries (metric self) point (root self))"
    if "maxNodes = int (length (nodes (root self)))"
  proof -
    from that res(2) have "size (mset res) = size (mset (entries (metric self) point (root self)))"
      by (simp add: entries_def)
    with res(3) show ?thesis
      by (metis add_diff_cancel_left' size_Diff_submset size_eq_0_iff_empty
          subset_mset.add_diff_inverse add.right_neutral cancel_comm_monoid_add_class.diff_cancel)
  qed
  with res eq show "\<exists>res. nearest self point maxNodes (Some 0) = Inr res \<and>
             int (length res) = maxNodes \<and>
             mset res \<subseteq># mset (entries (metric self) point (root self)) \<and>
             (maxNodes = int (length (nodes (root self))) \<longrightarrow>
                mset res = mset (entries (metric self) point (root self)))"
    by auto
qed


theorem nearest_zero_radius_is_no_radius_witness:
  "root (projr (kdTree quickSortIP_spec [0, 0, 1, 0, 0, 1, 5, 5] squaredEuclidean 2)) \<noteq> Null \<and>
   (4::int) = int (length (nodes (root
       (projr (kdTree quickSortIP_spec [0, 0, 1, 0, 0, 1, 5, 5] squaredEuclidean 2))))) \<and>
   nearest (projr (kdTree quickSortIP_spec [0, 0, 1, 0, 0, 1, 5, 5] squaredEuclidean 2))
      [0, 0] 4 (Some 0) =
   nearest (projr (kdTree quickSortIP_spec [0, 0, 1, 0, 0, 1, 5, 5] squaredEuclidean 2))
      [0, 0] 4 None \<and>
   map snd (projr (nearest
      (projr (kdTree quickSortIP_spec [0, 0, 1, 0, 0, 1, 5, 5] squaredEuclidean 2))
      [0, 0] 4 (Some 0))) = [50, 1, 1, 0] \<and>
   mset (projr (nearest
      (projr (kdTree quickSortIP_spec [0, 0, 1, 0, 0, 1, 5, 5] squaredEuclidean 2))
      [0, 0] 4 (Some 0))) =
   mset (entries squaredEuclidean [0, 0]
      (root (projr (kdTree quickSortIP_spec [0, 0, 1, 0, 0, 1, 5, 5] squaredEuclidean 2)))) \<and>
   (0::real) < 50"
proof -
  let ?T = "projr (kdTree quickSortIP_spec [0, 0, 1, 0, 0, 1, 5, 5] squaredEuclidean 2)"
  have rt: "root ?T \<noteq> Null" by code_simp
  have n: "(4::int) = int (length (nodes (root ?T)))" by code_simp
  have m: "metric ?T = squaredEuclidean" by (simp add: kdTree_def split: prod.splits)
  have d: "map snd (projr (nearest ?T [0, 0] 4 (Some 0))) = [50, 1, 1, 0]" by code_simp
  note T = nearest_zero_radius_is_no_radius[of ?T "[0, 0]" 4]
  from T have eq: "nearest ?T [0, 0] 4 (Some 0) = nearest ?T [0, 0] 4 None" by blast
  have hyp: "(1::int) \<le> 4 \<and> root ?T \<noteq> Null \<and> (4::int) \<le> int (length (nodes (root ?T)))"
    using rt n by simp
  from T[THEN conjunct2, rule_format, OF hyp] obtain res where
    a: "nearest ?T [0, 0] 4 (Some 0) = Inr res" and
    b: "(4::int) = int (length (nodes (root ?T))) \<longrightarrow>
        mset res = mset (entries (metric ?T) [0, 0] (root ?T))" by blast
  from b n have "mset res = mset (entries (metric ?T) [0, 0] (root ?T))" by blast
  with a have "nearest ?T [0, 0] 4 (Some 0) = Inr res"
    "mset res = mset (entries (metric ?T) [0, 0] (root ?T))" by simp_all
  then have "mset (projr (nearest ?T [0, 0] 4 (Some 0))) =
      mset (entries squaredEuclidean [0, 0] (root ?T))"
    unfolding m by simp
  with rt n eq d show ?thesis by simp
qed

end
